theory Spec2Isabelle
  imports Complex_Main "HOL-Library.Word" "HOL-Library.Sublist"
begin


section \<open>Pixel buffer\<close>

text \<open>
  The filters of \<^verbatim>\<open>ImageFilters.cpp\<close> work on the class \<^verbatim>\<open>Image\<close> of
  \<^verbatim>\<open>image/Image_Class.h\<close>, which the sources at hand include but do not contain.

  Modelled from the spec: the \<^verbatim>\<open>Image\<close> class (pixel buffer) is missing. The
  specification gives it a width, a height, a channel count fixed at 3 and a contiguous
  sequence of \<open>width * height * channels\<close> 8-bit samples in row-major order, with the
  accessors \<open>get(x, y, c)\<close> and \<open>set(x, y, c, value)\<close>; copy and assignment are deep, which a
  HOL value is by nature. A coordinate taken from the loop bounds is a natural number: every
  loop of the filters counts upwards from a non-negative start and stops below the dimension,
  so such an access lies inside the buffer. An access at a coordinate that the code computes
  goes through the checked accessor \<open>getPixelAt\<close> below, unless a test of the code guards it.
\<close>

type_synonym byte = "8 word"

record Image =
  width :: nat
  height :: nat
  imageData :: "byte list"

definition channels :: nat where
  "channels = 3"

definition wf_image :: "Image \<Rightarrow> bool" where
  "wf_image img = (length (imageData img) = width img * height img * channels)"

definition idx :: "Image \<Rightarrow> nat \<Rightarrow> nat \<Rightarrow> nat \<Rightarrow> nat" where
  "idx img x y c = (y * width img + x) * channels + c"

definition getPixel :: "Image \<Rightarrow> nat \<Rightarrow> nat \<Rightarrow> nat \<Rightarrow> byte" where
  "getPixel img x y c = imageData img ! idx img x y c"

definition setPixel :: "Image \<Rightarrow> nat \<Rightarrow> nat \<Rightarrow> nat \<Rightarrow> byte \<Rightarrow> Image" where
  "setPixel img x y c v = img\<lparr>imageData := (imageData img)[idx img x y c := v]\<rparr>"

text \<open>
  Modelled from the spec: the constructor \<^verbatim>\<open>Image(width, height)\<close> is missing. The
  specification lets it zero-fill the samples or leave them unspecified, as long as the choice
  is deterministic; the model zero-fills.
\<close>

definition newImage :: "nat \<Rightarrow> nat \<Rightarrow> Image" where
  "newImage w h = \<lparr>width = w, height = h, imageData = replicate (w * h * channels) 0\<rparr>"

text \<open>
  A C \<^verbatim>\<open>int\<close> holding a sample is an \<^typ>\<open>int\<close> read with \<^const>\<open>uint\<close>; storing an
  \<^verbatim>\<open>int\<close> into an \<^verbatim>\<open>unsigned char\<close> keeps its low eight bits
  (\<^const>\<open>word_of_int\<close>). Every integer division has non-negative operands, where C's
  truncation and \<^const>\<open>divide\<close> on \<^typ>\<open>int\<close> agree.
\<close>

definition toByte :: "int \<Rightarrow> byte" where
  "toByte v = word_of_int v"

text \<open>
  Nearly every loop body ends with three calls of \<^verbatim>\<open>setPixel\<close>, one per channel of the
  pixel \<open>(x, y)\<close>, in the order 0, 1, 2.
\<close>

definition set3 :: "Image \<Rightarrow> nat \<Rightarrow> nat \<Rightarrow> byte \<Rightarrow> byte \<Rightarrow> byte \<Rightarrow> Image" where
  "set3 img x y r g b = setPixel (setPixel (setPixel img x y 0 r) x y 1 g) x y 2 b"

text \<open>
  Faults. The specification names \<open>InvalidParameter\<close>, \<open>InvalidDimensions\<close> and
  \<open>OutOfRange\<close>; a division by zero is the algorithmic fault it wants excluded. A C integer
  division is modelled with its fault written out.
\<close>

datatype error = InvalidParameter | InvalidDimensions | OutOfRange | DivisionByZero | Overflow

definition c_div :: "int \<Rightarrow> int \<Rightarrow> error + int" where
  "c_div a b = (if b = 0 then Inl DivisionByZero else Inr (a div b))"

text \<open>
  A C \<^verbatim>\<open>int\<close> has 32 bits. The sums of samples that the filters take over a fixed
  neighbourhood stay far below \<open>2^31\<close>. Where a value is computed from a parameter of the
  caller (the column \<open>x + offset\<close> of double vision; the counters, the coordinates and the
  histogram sums of oil painting, which grow with \<open>radius\<close>), the addition is \<open>c_add\<close>:
  a signed overflow is undefined behaviour in C++, and the model makes it the fault
  \<open>Overflow\<close>.
\<close>

definition INT_MAX :: int where
  "INT_MAX = 2147483647"

definition c_add :: "int \<Rightarrow> int \<Rightarrow> error + int" where
  "c_add a b = (if a + b < - INT_MAX - 1 \<or> INT_MAX < a + b then Inl Overflow else Inr (a + b))"

definition bindE :: "error + 'a \<Rightarrow> ('a \<Rightarrow> error + 'b) \<Rightarrow> error + 'b" where
  "bindE m f = (case m of Inl e \<Rightarrow> Inl e | Inr v \<Rightarrow> f v)"

text \<open>A loop whose body can fault stops at the first fault.\<close>

fun foldE :: "('a \<Rightarrow> 's \<Rightarrow> error + 's) \<Rightarrow> 'a list \<Rightarrow> 's \<Rightarrow> error + 's" where
  "foldE f [] s = Inr s"
| "foldE f (x # xs) s = (case f x s of Inl e \<Rightarrow> Inl e | Inr s' \<Rightarrow> foldE f xs s')"

text \<open>
  An access whose coordinates are computed, not taken from the loop bounds, is checked: the
  accessor answers a coordinate outside the buffer with \<open>OutOfRange\<close>.
\<close>

definition getPixelAt :: "Image \<Rightarrow> int \<Rightarrow> int \<Rightarrow> nat \<Rightarrow> error + byte" where
  "getPixelAt img x y c =
     (if 0 \<le> x \<and> x < int (width img) \<and> 0 \<le> y \<and> y < int (height img) \<and> c < channels
      then Inr (getPixel img (nat x) (nat y) c) else Inl OutOfRange)"

section \<open>Cancellation protocol\<close>

datatype outcome = Completed | Cancelled

text \<open>
  \<^verbatim>\<open>checkCancellation\<close>: when the flag is set, the current image is overwritten with the
  pre-filter image. Status bar and progress bar are user-interface effects and are left out.
\<close>

definition checkCancellation :: "bool \<Rightarrow> Image \<Rightarrow> Image \<Rightarrow> Image" where
  "checkCancellation cancelRequested currentImage preFilterImage =
     (if cancelRequested then preFilterImage else currentImage)"

text \<open>
  The cancellation token is an atomic flag written by the user interface while events are
  processed between two rows. The model reads it through \<open>cancel\<close>, which gives the value of
  the flag when it is polled at the start of iteration \<open>y\<close>. The loop over rows (or columns)
  either runs to its end, \<open>Inr\<close> of the final state, or leaves at the first iteration whose
  poll finds the flag set, \<open>Inl\<close> of that iteration and the state reached so far.
\<close>

fun cancelable_loop :: "(nat \<Rightarrow> bool) \<Rightarrow> (nat \<Rightarrow> 's \<Rightarrow> 's) \<Rightarrow> nat list \<Rightarrow> 's \<Rightarrow> (nat \<times> 's) + 's" where
  "cancelable_loop cancel step [] s = Inr s"
| "cancelable_loop cancel step (y # ys) s =
     (if cancel y then Inl (y, s) else cancelable_loop cancel step ys (step y s))"

fun cancelable_loopE ::
    "(nat \<Rightarrow> bool) \<Rightarrow> (nat \<Rightarrow> 's \<Rightarrow> error + 's) \<Rightarrow> nat list \<Rightarrow> 's \<Rightarrow> error + ((nat \<times> 's) + 's)" where
  "cancelable_loopE cancel step [] s = Inr (Inr s)"
| "cancelable_loopE cancel step (y # ys) s =
     (if cancel y then Inr (Inl (y, s))
      else case step y s of Inl e \<Rightarrow> Inl e | Inr s' \<Rightarrow> cancelable_loopE cancel step ys s')"

section \<open>Floating-point arithmetic\<close>

text \<open>
  Several filters compute in \<^verbatim>\<open>double\<close> or \<^verbatim>\<open>float\<close> and convert back to
  \<^verbatim>\<open>int\<close>. A finite floating-point value is modelled by the rational number it denotes,
  and each operation \<open>+\<close>, \<open>-\<close>, \<open>*\<close>, \<open>/\<close> by the exact operation followed by rounding to
  the nearest value with \<open>p\<close> significant bits, ties to even (IEEE 754; \<open>p = 53\<close> for
  \<^verbatim>\<open>double\<close>, \<open>p = 24\<close> for \<^verbatim>\<open>float\<close>), each operation rounded on its own. The
  magnitudes that occur in the filters (samples, coordinates, ratios of dimensions) are far
  from the overflow and underflow thresholds, so exponents are unbounded in the model and
  there are no infinities, NaNs or subnormal numbers.
\<close>

text \<open>The number of binary digits of a positive integer.\<close>

function bitlen :: "int \<Rightarrow> int" where
  "bitlen n = (if n \<le> 0 then 0 else 1 + bitlen (n div 2))"
  by auto
termination
  by (relation "measure nat") auto

declare bitlen.simps [simp del]

definition pow2 :: "int \<Rightarrow> rat" where
  "pow2 e = (if 0 \<le> e then 2 ^ nat e else 1 / 2 ^ nat (- e))"

text \<open>\<open>ilog2 q\<close> is the exponent \<open>e\<close> with \<open>2^e \<le> q < 2^(e+1)\<close>, for \<open>q > 0\<close>.\<close>

definition ilog2 :: "rat \<Rightarrow> int" where
  "ilog2 q =
     (case quotient_of q of (n, d) \<Rightarrow>
        let k = bitlen n - bitlen d
        in if pow2 k \<le> q then k else k - 1)"

text \<open>Rounding to the nearest integer, ties to even.\<close>

definition rne :: "rat \<Rightarrow> int" where
  "rne q =
     (let f = \<lfloor>q\<rfloor>; r = q - of_int f
      in if r < 1 / 2 then f else if 1 / 2 < r then f + 1 else if even f then f else f + 1)"

definition fp_round :: "nat \<Rightarrow> rat \<Rightarrow> rat" where
  "fp_round p q =
     (if q = 0 then 0
      else let a = \<bar>q\<bar>; u = pow2 (ilog2 a + 1 - int p)
           in sgn q * (of_int (rne (a / u)) * u))"

definition rd :: "rat \<Rightarrow> rat" where
  "rd q = fp_round 53 q"

definition rf :: "rat \<Rightarrow> rat" where
  "rf q = fp_round 24 q"

text \<open>Conversion of a floating-point value to \<^verbatim>\<open>int\<close> truncates towards zero.\<close>

definition trunc :: "rat \<Rightarrow> int" where
  "trunc q = (if 0 \<le> q then \<lfloor>q\<rfloor> else \<lceil>q\<rceil>)"

text \<open>
  \<^verbatim>\<open>std::sqrt\<close> of an \<^verbatim>\<open>int\<close> is the correctly rounded \<^verbatim>\<open>double\<close> square root.
  Below \<open>2^53\<close> the argument is exact, and the rounded root of a number that is not a perfect
  square stays strictly between the two neighbouring integers, so that the truncated result is
  the integer square root.
\<close>

function isqrt_from :: "nat \<Rightarrow> nat \<Rightarrow> nat" where
  "isqrt_from n r = (if (r + 1) * (r + 1) \<le> n then isqrt_from n (r + 1) else r)"
  by auto
termination
  by (relation "measure (\<lambda>(n, r). n - r * r)") auto

declare isqrt_from.simps [simp del]

definition isqrt :: "nat \<Rightarrow> nat" where
  "isqrt n = isqrt_from n 0"

definition itod :: "int \<Rightarrow> rat" where
  "itod n = rd (of_int n)"

definition dadd :: "rat \<Rightarrow> rat \<Rightarrow> rat" where
  "dadd a b = rd (a + b)"

definition dsub :: "rat \<Rightarrow> rat \<Rightarrow> rat" where
  "dsub a b = rd (a - b)"

definition dmul :: "rat \<Rightarrow> rat \<Rightarrow> rat" where
  "dmul a b = rd (a * b)"

definition ddiv :: "rat \<Rightarrow> rat \<Rightarrow> rat" where
  "ddiv a b = rd (a / b)"

definition itof :: "int \<Rightarrow> rat" where
  "itof n = rf (of_int n)"

definition fadd :: "rat \<Rightarrow> rat \<Rightarrow> rat" where
  "fadd a b = rf (a + b)"

definition fsub :: "rat \<Rightarrow> rat \<Rightarrow> rat" where
  "fsub a b = rf (a - b)"

definition fmul :: "rat \<Rightarrow> rat \<Rightarrow> rat" where
  "fmul a b = rf (a * b)"

definition fdiv :: "rat \<Rightarrow> rat \<Rightarrow> rat" where
  "fdiv a b = rf (a / b)"

text \<open>\<^verbatim>\<open>std::clamp(v, lo, hi)\<close> on \<^verbatim>\<open>int\<close>.\<close>

definition clampi :: "int \<Rightarrow> int \<Rightarrow> int \<Rightarrow> int" where
  "clampi v lo hi = (if v < lo then lo else if hi < v then hi else v)"

section \<open>Grayscale\<close>

definition grayscale_pixel :: "nat \<Rightarrow> nat \<Rightarrow> Image \<Rightarrow> Image" where
  "grayscale_pixel x y img =
     (let r = uint (getPixel img x y 0);
          g = uint (getPixel img x y 1);
          b = uint (getPixel img x y 2);
          gray = (r + g + b) div 3
      in set3 img x y (toByte gray) (toByte gray) (toByte gray))"

definition grayscale_row :: "nat \<Rightarrow> Image \<Rightarrow> Image" where
  "grayscale_row y img = fold (\<lambda>x. grayscale_pixel x y) [0..<width img] img"

definition applyGrayscale :: "Image \<Rightarrow> Image \<Rightarrow> (nat \<Rightarrow> bool) \<Rightarrow> outcome \<times> Image" where
  "applyGrayscale currentImage preFilterImage cancel =
     (case cancelable_loop cancel grayscale_row [0..<height currentImage] currentImage of
        Inl (y, partial) \<Rightarrow> (Cancelled, checkCancellation (cancel y) partial preFilterImage)
      | Inr done \<Rightarrow> (Completed, done))"

section \<open>Invert\<close>

definition invert_pixel :: "nat \<Rightarrow> nat \<Rightarrow> Image \<Rightarrow> Image" where
  "invert_pixel x y img =
     (let img1 = setPixel img x y 0 (toByte (255 - uint (getPixel img x y 0)));
          img2 = setPixel img1 x y 1 (toByte (255 - uint (getPixel img1 x y 1)))
      in setPixel img2 x y 2 (toByte (255 - uint (getPixel img2 x y 2))))"

definition invert_row :: "nat \<Rightarrow> Image \<Rightarrow> Image" where
  "invert_row y img = fold (\<lambda>x. invert_pixel x y) [0..<width img] img"

definition applyInvert :: "Image \<Rightarrow> Image \<Rightarrow> (nat \<Rightarrow> bool) \<Rightarrow> outcome \<times> Image" where
  "applyInvert currentImage preFilterImage cancel =
     (case cancelable_loop cancel invert_row [0..<height currentImage] currentImage of
        Inl (y, partial) \<Rightarrow> (Cancelled, checkCancellation (cancel y) partial preFilterImage)
      | Inr done \<Rightarrow> (Completed, done))"

section \<open>TV/CRT\<close>

text \<open>
  The filter draws one noise value in \<open>[-10, 10]\<close> per pixel from a generator seeded with
  the clock; \<open>noise x y\<close> is the value drawn for the pixel \<open>(x, y)\<close>.
\<close>

definition tv_pixel :: "(nat \<Rightarrow> nat \<Rightarrow> int) \<Rightarrow> nat \<Rightarrow> nat \<Rightarrow> Image \<Rightarrow> Image" where
  "tv_pixel noise x y img =
     (let r = uint (getPixel img x y 0);
          g = uint (getPixel img x y 1);
          b = uint (getPixel img x y 2);
          scanlineIntensity = (if y mod 3 = 0 then rf (7 / 10) else 1);
          brightness = fdiv (fdiv (itof (r + g + b)) 3) 255;
          (r, g, b) =
            (if brightness < 1 / 2
             then (min 255 (trunc (fmul (itof r) (rf (8 / 10)))),
                   min 255 (trunc (fmul (itof g) (rf (7 / 10)))),
                   min 255 (trunc (fmul (itof b) (rf (12 / 10)))))
             else (r, g, b));
          (r, g, b) =
            (if rf (7 / 10) < brightness
             then (min 255 (trunc (fmul (itof r) (rf (13 / 10)))),
                   min 255 (trunc (fmul (itof g) (rf (11 / 10)))),
                   max 0 (trunc (fmul (itof b) (rf (9 / 10)))))
             else (r, g, b));
          r = trunc (fmul (itof r) scanlineIntensity);
          g = trunc (fmul (itof g) scanlineIntensity);
          b = trunc (fmul (itof b) scanlineIntensity);
          n = noise x y;
          r = min 255 (max 0 (r + n));
          g = min 255 (max 0 (g + n));
          b = min 255 (max 0 (b + n))
      in set3 img x y (toByte r) (toByte g) (toByte b))"

definition tv_row :: "(nat \<Rightarrow> nat \<Rightarrow> int) \<Rightarrow> nat \<Rightarrow> Image \<Rightarrow> Image" where
  "tv_row noise y img = fold (\<lambda>x. tv_pixel noise x y) [0..<width img] img"

definition applyTVFilter ::
    "(nat \<Rightarrow> nat \<Rightarrow> int) \<Rightarrow> Image \<Rightarrow> Image \<Rightarrow> (nat \<Rightarrow> bool) \<Rightarrow> outcome \<times> Image" where
  "applyTVFilter noise currentImage preFilterImage cancel =
     (case cancelable_loop cancel (tv_row noise) [0..<height currentImage] currentImage of
        Inl (y, partial) \<Rightarrow> (Cancelled, checkCancellation (cancel y) partial preFilterImage)
      | Inr done \<Rightarrow> (Completed, done))"

section \<open>Black and white\<close>

definition bw_pixel :: "nat \<Rightarrow> nat \<Rightarrow> Image \<Rightarrow> Image" where
  "bw_pixel x y img =
     (let r = uint (getPixel img x y 0);
          g = uint (getPixel img x y 1);
          b = uint (getPixel img x y 2);
          gray = (r + g + b) div 3;
          bw = (if gray > 127 then 255 else 0)
      in set3 img x y (toByte bw) (toByte bw) (toByte bw))"

definition bw_row :: "nat \<Rightarrow> Image \<Rightarrow> Image" where
  "bw_row y img = fold (\<lambda>x. bw_pixel x y) [0..<width img] img"

definition applyBlackAndWhite :: "Image \<Rightarrow> Image \<Rightarrow> (nat \<Rightarrow> bool) \<Rightarrow> outcome \<times> Image" where
  "applyBlackAndWhite currentImage preFilterImage cancel =
     (case cancelable_loop cancel bw_row [0..<height currentImage] currentImage of
        Inl (y, partial) \<Rightarrow> (Cancelled, checkCancellation (cancel y) partial preFilterImage)
      | Inr done \<Rightarrow> (Completed, done))"

section \<open>Infrared\<close>

text \<open>The infrared filter walks the image column by column and polls the token per column.\<close>

definition infrared_pixel :: "nat \<Rightarrow> nat \<Rightarrow> Image \<Rightarrow> Image" where
  "infrared_pixel x y img =
     (let red = uint (getPixel img x y 0);
          green = uint (getPixel img x y 1);
          blue = uint (getPixel img x y 2);
          brightness = fdiv (itof (red + green + blue)) 3;
          inverted = fsub 255 brightness;
          R = 255;
          G = trunc inverted;
          B = trunc inverted
      in set3 img x y (toByte R) (toByte G) (toByte B))"

definition infrared_column :: "nat \<Rightarrow> Image \<Rightarrow> Image" where
  "infrared_column x img = fold (\<lambda>y. infrared_pixel x y) [0..<height img] img"

definition applyInfrared :: "Image \<Rightarrow> Image \<Rightarrow> (nat \<Rightarrow> bool) \<Rightarrow> outcome \<times> Image" where
  "applyInfrared currentImage preFilterImage cancel =
     (case cancelable_loop cancel infrared_column [0..<width currentImage] currentImage of
        Inl (x, partial) \<Rightarrow> (Cancelled, checkCancellation (cancel x) partial preFilterImage)
      | Inr done \<Rightarrow> (Completed, done))"

section \<open>Purple\<close>

definition purple_pixel :: "nat \<Rightarrow> nat \<Rightarrow> Image \<Rightarrow> Image" where
  "purple_pixel x y img =
     (let r = uint (getPixel img x y 0);
          g = uint (getPixel img x y 1);
          b = uint (getPixel img x y 2);
          r = min 255 (trunc (dmul (itod r) (rd (13 / 10))));
          g = max 0 (trunc (dmul (itod g) (rd (5 / 10))));
          b = min 255 (trunc (dmul (itod b) (rd (13 / 10))))
      in set3 img x y (toByte r) (toByte g) (toByte b))"

definition purple_row :: "nat \<Rightarrow> Image \<Rightarrow> Image" where
  "purple_row y img = fold (\<lambda>x. purple_pixel x y) [0..<width img] img"

definition applyPurpleFilter :: "Image \<Rightarrow> Image \<Rightarrow> (nat \<Rightarrow> bool) \<Rightarrow> outcome \<times> Image" where
  "applyPurpleFilter currentImage preFilterImage cancel =
     (case cancelable_loop cancel purple_row [0..<height currentImage] currentImage of
        Inl (y, partial) \<Rightarrow> (Cancelled, checkCancellation (cancel y) partial preFilterImage)
      | Inr done \<Rightarrow> (Completed, done))"

section \<open>Merge\<close>

definition merge_pixel :: "Image \<Rightarrow> nat \<Rightarrow> nat \<Rightarrow> Image \<Rightarrow> Image" where
  "merge_pixel mergeImage x y img =
     (let r = (uint (getPixel img x y 0) + uint (getPixel mergeImage x y 0)) div 2;
          g = (uint (getPixel img x y 1) + uint (getPixel mergeImage x y 1)) div 2;
          b = (uint (getPixel img x y 2) + uint (getPixel mergeImage x y 2)) div 2
      in set3 img x y (toByte r) (toByte g) (toByte b))"

definition applyMerge :: "Image \<Rightarrow> Image \<Rightarrow> Image" where
  "applyMerge currentImage mergeImage =
     (let w = min (width currentImage) (width mergeImage);
          h = min (height currentImage) (height mergeImage)
      in fold (\<lambda>y. fold (\<lambda>x. merge_pixel mergeImage x y) [0..<w]) [0..<h] currentImage)"

section \<open>Flip\<close>

text \<open>
  The functions with a string parameter are declared to throw \<^verbatim>\<open>std::invalid_argument\<close>
  on a value they do not know. Their result is a sum so that such a fault has a place; the
  bodies below are the source's, branch by branch.
\<close>

definition flip_horizontal_pixel :: "nat \<Rightarrow> nat \<Rightarrow> Image \<Rightarrow> Image" where
  "flip_horizontal_pixel x y img =
     (let x2 = width img - 1 - x
      in fold (\<lambda>c im. let temp = getPixel im x y c
                      in setPixel (setPixel im x y c (getPixel im x2 y c)) x2 y c temp)
           [0..<3] img)"

definition flip_vertical_pixel :: "nat \<Rightarrow> nat \<Rightarrow> Image \<Rightarrow> Image" where
  "flip_vertical_pixel x y img =
     (let y2 = height img - 1 - y
      in fold (\<lambda>c im. let temp = getPixel im x y c
                      in setPixel (setPixel im x y c (getPixel im x y2 c)) x y2 c temp)
           [0..<3] img)"

definition applyFlip :: "Image \<Rightarrow> string \<Rightarrow> error + Image" where
  "applyFlip currentImage direction =
     (if direction = ''Horizontal''
      then Inr (fold (\<lambda>y. fold (\<lambda>x. flip_horizontal_pixel x y) [0..<width currentImage div 2])
                  [0..<height currentImage] currentImage)
      else Inr (fold (\<lambda>y. fold (\<lambda>x. flip_vertical_pixel x y) [0..<width currentImage])
                  [0..<height currentImage div 2] currentImage))"

section \<open>Dark and light\<close>

definition darklight_value :: "string \<Rightarrow> int \<Rightarrow> int" where
  "darklight_value choice p =
     (if choice = ''dark'' then p div 3
      else (let p2 = p * 2 in if p2 > 255 then 255 else p2))"

definition applyDarkAndLight :: "Image \<Rightarrow> string \<Rightarrow> error + Image" where
  "applyDarkAndLight currentImage choice =
     Inr (fold (\<lambda>i. fold (\<lambda>j. fold (\<lambda>k res.
                  setPixel res i j k (toByte (darklight_value choice (uint (getPixel currentImage i j k)))))
                [0..<3]) [0..<height currentImage]) [0..<width currentImage]
            (newImage (width currentImage) (height currentImage)))"

text \<open>The overload with a percentage, which the user interface calls.\<close>

definition darklight_factor :: "string \<Rightarrow> int \<Rightarrow> rat" where
  "darklight_factor choice percent =
     (if choice = ''dark'' then max 0 (dsub 1 (ddiv (itod percent) 100))
      else dadd 1 (ddiv (itod percent) 100))"

definition darklight_scaled :: "rat \<Rightarrow> int \<Rightarrow> int" where
  "darklight_scaled factor p =
     (let v = dmul (itod p) factor;
          v = (if v < 0 then 0 else v);
          v = (if 255 < v then 255 else v)
      in trunc v)"

definition applyDarkAndLight_percent :: "Image \<Rightarrow> string \<Rightarrow> int \<Rightarrow> error + Image" where
  "applyDarkAndLight_percent currentImage choice percent0 =
     (let percent = max 0 (min 100 percent0);
          factor = darklight_factor choice percent
      in Inr (fold (\<lambda>i. fold (\<lambda>j. fold (\<lambda>k res.
                  setPixel res i j k (toByte (darklight_scaled factor (uint (getPixel currentImage i j k)))))
                [0..<3]) [0..<height currentImage]) [0..<width currentImage]
            (newImage (width currentImage) (height currentImage))))"

section \<open>Filters that build their result in a second buffer\<close>

text \<open>
  The filters of this section read \<open>currentImage\<close> and write a fresh buffer, which replaces
  \<open>currentImage\<close> after the last row. The loop state is the fresh buffer; on cancellation
  it is dropped and \<open>checkCancellation\<close> overwrites \<open>currentImage\<close>.
\<close>

subsection \<open>Emboss\<close>

definition emboss_pixel :: "Image \<Rightarrow> nat \<Rightarrow> nat \<Rightarrow> Image \<Rightarrow> Image" where
  "emboss_pixel currentImage x y embossed =
     (let r1 = uint (getPixel currentImage x y 0);
          g1 = uint (getPixel currentImage x y 1);
          b1 = uint (getPixel currentImage x y 2);
          r2 = uint (getPixel currentImage (x + 1) (y + 1) 0);
          g2 = uint (getPixel currentImage (x + 1) (y + 1) 1);
          b2 = uint (getPixel currentImage (x + 1) (y + 1) 2);
          diffR = clampi (r1 - r2 + 128) 0 255;
          diffG = clampi (g1 - g2 + 128) 0 255;
          diffB = clampi (b1 - b2 + 128) 0 255;
          gray = (diffR + diffG + diffB) div 3
      in fold (\<lambda>c e. setPixel e x y c (toByte gray)) [0..<3] embossed)"

definition emboss_row :: "Image \<Rightarrow> nat \<Rightarrow> Image \<Rightarrow> Image" where
  "emboss_row currentImage y embossed =
     fold (\<lambda>x. emboss_pixel currentImage x y) [0..<width currentImage - 1] embossed"

definition applyEmboss :: "Image \<Rightarrow> Image \<Rightarrow> (nat \<Rightarrow> bool) \<Rightarrow> outcome \<times> Image" where
  "applyEmboss currentImage preFilterImage cancel =
     (case cancelable_loop cancel (emboss_row currentImage) [0..<height currentImage - 1]
             (newImage (width currentImage) (height currentImage)) of
        Inl (y, partial) \<Rightarrow> (Cancelled, checkCancellation (cancel y) currentImage preFilterImage)
      | Inr embossed \<Rightarrow> (Completed, embossed))"

subsection \<open>Double vision\<close>

text \<open>
  The second sample of a pixel is read at the column \<open>x + offset\<close>, an \<^verbatim>\<open>int\<close>
  addition, brought back to the last column when it lies to the right of the buffer. The
  column is computed, so the read goes through the checked accessor.
\<close>

definition doublevision_pixel :: "Image \<Rightarrow> int \<Rightarrow> nat \<Rightarrow> nat \<Rightarrow> Image \<Rightarrow> error + Image" where
  "doublevision_pixel currentImage offset x y out =
     bindE (c_add (int x) offset) (\<lambda>nx.
       let nx = (if nx \<ge> int (width currentImage) then int (width currentImage) - 1 else nx);
           R1 = uint (getPixel currentImage x y 0);
           G1 = uint (getPixel currentImage x y 1);
           B1 = uint (getPixel currentImage x y 2)
       in bindE (getPixelAt currentImage nx (int y) 0) (\<lambda>r2.
          bindE (getPixelAt currentImage nx (int y) 1) (\<lambda>g2.
          bindE (getPixelAt currentImage nx (int y) 2) (\<lambda>b2.
            let R2 = uint r2;
                G2 = uint g2;
                B2 = uint b2;
                R = min 255 (trunc (dadd (dmul (itod R1) (rd (6 / 10))) (dmul (itod R2) (rd (4 / 10)))) + 25);
                G = trunc (dadd (dmul (itod G1) (rd (6 / 10))) (dmul (itod G2) (rd (4 / 10))));
                B = trunc (dadd (dmul (itod B1) (rd (6 / 10))) (dmul (itod B2) (rd (4 / 10))))
            in Inr (set3 out x y (toByte R) (toByte G) (toByte B))))))"

definition doublevision_row :: "Image \<Rightarrow> int \<Rightarrow> nat \<Rightarrow> Image \<Rightarrow> error + Image" where
  "doublevision_row currentImage offset y out =
     foldE (\<lambda>x. doublevision_pixel currentImage offset x y) [0..<width currentImage] out"

definition applyDoubleVision ::
    "Image \<Rightarrow> Image \<Rightarrow> (nat \<Rightarrow> bool) \<Rightarrow> int \<Rightarrow> error + (outcome \<times> Image)" where
  "applyDoubleVision currentImage preFilterImage cancel offset0 =
     (let offset = max 0 offset0
      in case cancelable_loopE cancel (doublevision_row currentImage offset) [0..<height currentImage]
                (newImage (width currentImage) (height currentImage)) of
           Inl e \<Rightarrow> Inl e
         | Inr (Inl (y, partial)) \<Rightarrow>
             Inr (Cancelled, checkCancellation (cancel y) currentImage preFilterImage)
         | Inr (Inr out) \<Rightarrow> Inr (Completed, out))"

subsection \<open>Enhance sunlight\<close>

definition sunlight_pixel :: "Image \<Rightarrow> nat \<Rightarrow> nat \<Rightarrow> Image \<Rightarrow> Image" where
  "sunlight_pixel currentImage x y result =
     fold (\<lambda>c res.
             let v = uint (getPixel currentImage x y c);
                 v = (if c = 0 \<or> c = 1 then min 255 (trunc (dmul (itod v) (rd (14 / 10)))) else v)
             in setPixel res x y c (toByte v))
       [0..<3] result"

definition sunlight_row :: "Image \<Rightarrow> nat \<Rightarrow> Image \<Rightarrow> Image" where
  "sunlight_row currentImage y result =
     fold (\<lambda>x. sunlight_pixel currentImage x y) [0..<width currentImage] result"

definition applyEnhanceSunlight :: "Image \<Rightarrow> Image \<Rightarrow> (nat \<Rightarrow> bool) \<Rightarrow> outcome \<times> Image" where
  "applyEnhanceSunlight currentImage preFilterImage cancel =
     (case cancelable_loop cancel (sunlight_row currentImage) [0..<height currentImage]
             (newImage (width currentImage) (height currentImage)) of
        Inl (y, partial) \<Rightarrow> (Cancelled, checkCancellation (cancel y) currentImage preFilterImage)
      | Inr result \<Rightarrow> (Completed, result))"

subsection \<open>Fish-eye\<close>

text \<open>
  The fish-eye filter computes in \<^verbatim>\<open>float\<close> and calls \<^verbatim>\<open>std::sqrt\<close> and
  \<^verbatim>\<open>std::pow\<close>. The two library functions are parameters of the model, \<open>sqrtf\<close> and
  \<open>powf\<close>, on the rational values of their arguments.
\<close>

definition fisheye_pixel ::
    "(rat \<Rightarrow> rat) \<Rightarrow> (rat \<Rightarrow> rat \<Rightarrow> rat) \<Rightarrow> Image \<Rightarrow> nat \<Rightarrow> nat \<Rightarrow> Image \<Rightarrow> Image" where
  "fisheye_pixel sqrtf powf currentImage x y out =
     (let centerX = fdiv (itof (int (width currentImage))) 2;
          centerY = fdiv (itof (int (height currentImage))) 2;
          radius = min centerX centerY;
          dx = fdiv (fsub (itof (int x)) centerX) radius;
          dy = fdiv (fsub (itof (int y)) centerY) radius;
          dist = sqrtf (fadd (fmul dx dx) (fmul dy dy))
      in if dist < 1 \<and> 0 < dist
         then (let factor = 1;
                   newDist = powf dist (fmul factor (3 / 4));
                   nx = fadd centerX (fmul (fmul (fdiv dx dist) newDist) radius);
                   ny = fadd centerY (fmul (fmul (fdiv dy dist) newDist) radius);
                   ix = clampi (trunc nx) 0 (int (width currentImage) - 1);
                   iy = clampi (trunc ny) 0 (int (height currentImage) - 1)
               in fold (\<lambda>c res. setPixel res x y c (getPixel currentImage (nat ix) (nat iy) c))
                    [0..<3] out)
         else fold (\<lambda>c res. setPixel res x y c (getPixel currentImage x y c)) [0..<3] out)"

definition fisheye_row ::
    "(rat \<Rightarrow> rat) \<Rightarrow> (rat \<Rightarrow> rat \<Rightarrow> rat) \<Rightarrow> Image \<Rightarrow> nat \<Rightarrow> Image \<Rightarrow> Image" where
  "fisheye_row sqrtf powf currentImage y out =
     fold (\<lambda>x. fisheye_pixel sqrtf powf currentImage x y) [0..<width currentImage] out"

definition applyFishEye ::
    "(rat \<Rightarrow> rat) \<Rightarrow> (rat \<Rightarrow> rat \<Rightarrow> rat) \<Rightarrow> Image \<Rightarrow> Image \<Rightarrow> (nat \<Rightarrow> bool) \<Rightarrow> outcome \<times> Image" where
  "applyFishEye sqrtf powf currentImage preFilterImage cancel =
     (case cancelable_loop cancel (fisheye_row sqrtf powf currentImage) [0..<height currentImage]
             (newImage (width currentImage) (height currentImage)) of
        Inl (y, partial) \<Rightarrow> (Cancelled, checkCancellation (cancel y) currentImage preFilterImage)
      | Inr out \<Rightarrow> (Completed, out))"

subsection \<open>Blur\<close>

definition blurSize_of :: "int \<Rightarrow> int" where
  "blurSize_of strength0 =
     (let strength = max 0 (min 100 strength0)
      in max 1 ((strength * 24) div 100 + 1))"

definition in_image :: "Image \<Rightarrow> int \<Rightarrow> int \<Rightarrow> bool" where
  "in_image img nx ny = (nx \<ge> 0 \<and> nx < int (width img) \<and> ny \<ge> 0 \<and> ny < int (height img))"

definition blur_accum ::
    "Image \<Rightarrow> nat \<Rightarrow> nat \<Rightarrow> int \<Rightarrow> int \<Rightarrow> int \<times> int \<times> int \<times> int \<Rightarrow> int \<times> int \<times> int \<times> int" where
  "blur_accum currentImage x y i j acc =
     (case acc of (R, G, B, count) \<Rightarrow>
        let nx = int x + j; ny = int y + i
        in if in_image currentImage nx ny
           then (R + uint (getPixel currentImage (nat nx) (nat ny) 0),
                 G + uint (getPixel currentImage (nat nx) (nat ny) 1),
                 B + uint (getPixel currentImage (nat nx) (nat ny) 2),
                 count + 1)
           else (R, G, B, count))"

definition blur_sums :: "Image \<Rightarrow> int \<Rightarrow> nat \<Rightarrow> nat \<Rightarrow> int \<times> int \<times> int \<times> int" where
  "blur_sums currentImage blurSize x y =
     fold (\<lambda>i. fold (\<lambda>j. blur_accum currentImage x y i j) [- blurSize..blurSize])
       [- blurSize..blurSize] (0, 0, 0, 0)"

definition blur_pixel :: "Image \<Rightarrow> int \<Rightarrow> nat \<Rightarrow> nat \<Rightarrow> Image \<Rightarrow> error + Image" where
  "blur_pixel currentImage blurSize x y result =
     (case blur_sums currentImage blurSize x y of (R, G, B, count) \<Rightarrow>
        bindE (c_div R (max 1 count)) (\<lambda>r.
        bindE (c_div G (max 1 count)) (\<lambda>g.
        bindE (c_div B (max 1 count)) (\<lambda>b.
          Inr (set3 result x y (toByte r) (toByte g) (toByte b))))))"

definition blur_row :: "Image \<Rightarrow> int \<Rightarrow> nat \<Rightarrow> Image \<Rightarrow> error + Image" where
  "blur_row currentImage blurSize y result =
     foldE (\<lambda>x. blur_pixel currentImage blurSize x y) [0..<width currentImage] result"

definition applyBlur ::
    "Image \<Rightarrow> Image \<Rightarrow> (nat \<Rightarrow> bool) \<Rightarrow> int \<Rightarrow> error + (outcome \<times> Image)" where
  "applyBlur currentImage preFilterImage cancel strength =
     (let blurSize = blurSize_of strength
      in case cancelable_loopE cancel (blur_row currentImage blurSize) [0..<height currentImage]
                (newImage (width currentImage) (height currentImage)) of
           Inl e \<Rightarrow> Inl e
         | Inr (Inl (y, partial)) \<Rightarrow>
             Inr (Cancelled, checkCancellation (cancel y) currentImage preFilterImage)
         | Inr (Inr result) \<Rightarrow> Inr (Completed, result))"

definition applyBlur_default :: "Image \<Rightarrow> Image \<Rightarrow> (nat \<Rightarrow> bool) \<Rightarrow> error + (outcome \<times> Image)" where
  "applyBlur_default currentImage preFilterImage cancel =
     applyBlur currentImage preFilterImage cancel 60"

subsection \<open>Oil painting\<close>

text \<open>
  The four histograms \<^verbatim>\<open>colorCount\<close>, \<^verbatim>\<open>redSum\<close>, \<^verbatim>\<open>greenSum\<close> and
  \<^verbatim>\<open>blueSum\<close> are arrays of 256 \<^verbatim>\<open>int\<close>, zero at the start of every pixel.

  The counters \<^verbatim>\<open>dy\<close> and \<^verbatim>\<open>dx\<close> run from \<open>- radius\<close> to \<open>radius\<close>; the
  increment that would end the loop computes \<open>radius + 1\<close>, which overflows when
  \<open>radius\<close> is \<open>INT_MAX\<close>. The coordinates \<open>i + dx\<close> and \<open>j + dy\<close> and the four
  histogram updates are \<^verbatim>\<open>int\<close> additions as well.
\<close>

type_synonym histogram = "int list \<times> int list \<times> int list \<times> int list"

definition c_offsets :: "int \<Rightarrow> error + int list" where
  "c_offsets radius = (if INT_MAX \<le> radius then Inl Overflow else Inr [- radius..radius])"

text \<open>The four statements that count one sample of the colours \<open>r\<close>, \<open>g\<close>, \<open>b\<close> at its level.\<close>

definition oil_count :: "histogram \<Rightarrow> nat \<Rightarrow> int \<Rightarrow> int \<Rightarrow> int \<Rightarrow> error + histogram" where
  "oil_count hist level r g b =
     (case hist of (colorCount, redSum, greenSum, blueSum) \<Rightarrow>
        bindE (c_add (colorCount ! level) 1) (\<lambda>cnt.
        bindE (c_add (redSum ! level) r) (\<lambda>rs.
        bindE (c_add (greenSum ! level) g) (\<lambda>gs.
        bindE (c_add (blueSum ! level) b) (\<lambda>bs.
          Inr (colorCount[level := cnt], redSum[level := rs],
               greenSum[level := gs], blueSum[level := bs]))))))"

definition oil_accum ::
    "Image \<Rightarrow> int \<Rightarrow> nat \<Rightarrow> nat \<Rightarrow> int \<Rightarrow> int \<Rightarrow> histogram \<Rightarrow> error + histogram" where
  "oil_accum currentImage intensity i j dy dx hist =
     bindE (c_add (int i) dx) (\<lambda>nx.
     bindE (c_add (int j) dy) (\<lambda>ny.
       if in_image currentImage nx ny
       then (let r = uint (getPixel currentImage (nat nx) (nat ny) 0);
                 g = uint (getPixel currentImage (nat nx) (nat ny) 1);
                 b = uint (getPixel currentImage (nat nx) (nat ny) 2);
                 avg = (r + g + b) div 3
             in bindE (c_div avg (max 1 intensity)) (\<lambda>q.
                  oil_count hist (nat (min 255 (max 0 q))) r g b))
       else Inr hist))"

definition oil_histogram :: "Image \<Rightarrow> int \<Rightarrow> int \<Rightarrow> nat \<Rightarrow> nat \<Rightarrow> error + histogram" where
  "oil_histogram currentImage radius intensity i j =
     bindE (c_offsets radius) (\<lambda>offsets.
       foldE (\<lambda>dy. foldE (\<lambda>dx. oil_accum currentImage intensity i j dy dx) offsets) offsets
         (replicate 256 0, replicate 256 0, replicate 256 0, replicate 256 0))"

definition oil_max :: "int list \<Rightarrow> int \<times> nat" where
  "oil_max colorCount =
     fold (\<lambda>k (maxCount, maxLevel).
             if colorCount ! k > maxCount then (colorCount ! k, k) else (maxCount, maxLevel))
       [0..<256] (0, 0)"

text \<open>The divisor of the three bucket means, \<^verbatim>\<open>std::max(1, colorCount[maxLevel])\<close>.\<close>

definition oil_denom :: "int list \<Rightarrow> nat \<Rightarrow> int" where
  "oil_denom colorCount maxLevel = max 1 (colorCount ! maxLevel)"

definition oil_pixel :: "Image \<Rightarrow> int \<Rightarrow> int \<Rightarrow> nat \<Rightarrow> nat \<Rightarrow> Image \<Rightarrow> error + Image" where
  "oil_pixel currentImage radius intensity i j result =
     bindE (oil_histogram currentImage radius intensity i j) (\<lambda>hist.
       case hist of (colorCount, redSum, greenSum, blueSum) \<Rightarrow>
         let maxLevel = snd (oil_max colorCount);
             denom = oil_denom colorCount maxLevel
         in bindE (c_div (redSum ! maxLevel) denom) (\<lambda>r.
            bindE (c_div (greenSum ! maxLevel) denom) (\<lambda>g.
            bindE (c_div (blueSum ! maxLevel) denom) (\<lambda>b.
              Inr (set3 result i j (toByte r) (toByte g) (toByte b))))))"

text \<open>The immediate form walks column by column, the cancelable form row by row.\<close>

definition applyOilPainting :: "Image \<Rightarrow> int \<Rightarrow> int \<Rightarrow> error + Image" where
  "applyOilPainting currentImage radius0 intensity0 =
     (let radius = max 1 radius0;
          intensity = max 1 (min 255 intensity0)
      in foldE (\<lambda>i. foldE (\<lambda>j. oil_pixel currentImage radius intensity i j) [0..<height currentImage])
           [0..<width currentImage] (newImage (width currentImage) (height currentImage)))"

definition oil_row :: "Image \<Rightarrow> int \<Rightarrow> int \<Rightarrow> nat \<Rightarrow> Image \<Rightarrow> error + Image" where
  "oil_row currentImage radius intensity j result =
     foldE (\<lambda>i. oil_pixel currentImage radius intensity i j) [0..<width currentImage] result"

definition applyOilPainting_cancelable ::
    "Image \<Rightarrow> Image \<Rightarrow> (nat \<Rightarrow> bool) \<Rightarrow> int \<Rightarrow> int \<Rightarrow> error + (outcome \<times> Image)" where
  "applyOilPainting_cancelable currentImage preFilterImage cancel radius0 intensity0 =
     (let radius = max 1 radius0;
          intensity = max 1 (min 255 intensity0)
      in case cancelable_loopE cancel (oil_row currentImage radius intensity) [0..<height currentImage]
                (newImage (width currentImage) (height currentImage)) of
           Inl e \<Rightarrow> Inl e
         | Inr (Inl (j, partial)) \<Rightarrow>
             Inr (Cancelled, checkCancellation (cancel j) currentImage preFilterImage)
         | Inr (Inr result) \<Rightarrow> Inr (Completed, result))"

section \<open>Frames\<close>

definition fill_all :: "byte \<times> byte \<times> byte \<Rightarrow> Image \<Rightarrow> Image" where
  "fill_all color result =
     (case color of (r, g, b) \<Rightarrow>
        fold (\<lambda>y. fold (\<lambda>x res. set3 res x y r g b) [0..<width result]) [0..<height result] result)"

definition paste_image :: "Image \<Rightarrow> nat \<Rightarrow> nat \<Rightarrow> Image \<Rightarrow> Image" where
  "paste_image currentImage ox oy result =
     fold (\<lambda>y. fold (\<lambda>x. fold (\<lambda>c res.
             setPixel res (x + ox) (y + oy) c (getPixel currentImage x y c)) [0..<3])
           [0..<width currentImage]) [0..<height currentImage] result"

definition frame_simple :: "Image \<Rightarrow> Image" where
  "frame_simple currentImage =
     (let frameSize = 10; innerFrame = 5;
          result = newImage (width currentImage + 2 * frameSize) (height currentImage + 2 * frameSize);
          result = fill_all (0, 0, 255) result;
          result = paste_image currentImage frameSize frameSize result;
          gap = 5
      in fold (\<lambda>y. fold (\<lambda>x res.
                 let isWhiteBorder =
                       (x < frameSize + gap + innerFrame \<or>
                        x \<ge> frameSize + width currentImage - gap - innerFrame \<or>
                        y < frameSize + gap + innerFrame \<or>
                        y \<ge> frameSize + height currentImage - gap - innerFrame)
                 in if isWhiteBorder then set3 res x y 255 255 255 else res)
               [frameSize + gap..<frameSize + width currentImage - gap])
           [frameSize + gap..<frameSize + height currentImage - gap] result)"

definition frame_double_white :: "Image \<Rightarrow> Image" where
  "frame_double_white currentImage =
     (let outer = 14; inner = 6; gap = 4;
          newWidth = width currentImage + 2 * (outer + inner + gap);
          newHeight = height currentImage + 2 * (outer + inner + gap);
          result = newImage newWidth newHeight;
          result = fold (\<lambda>y. fold (\<lambda>x res. set3 res x y 20 20 20) [0..<newWidth]) [0..<newHeight] result;
          result = fold (\<lambda>y. fold (\<lambda>x res.
                     let border = (x < outer \<or> x \<ge> newWidth - outer \<or> y < outer \<or> y \<ge> newHeight - outer)
                     in if border then set3 res x y 255 255 255 else res)
                   [0..<newWidth]) [0..<newHeight] result;
          result = fold (\<lambda>y. fold (\<lambda>x res.
                     let border = (x < outer + gap + inner \<or> x \<ge> newWidth - (outer + gap + inner) \<or>
                                   y < outer + gap + inner \<or> y \<ge> newHeight - (outer + gap + inner))
                     in if border then set3 res x y 255 255 255 else res)
                   [outer + gap..<newWidth - (outer + gap)]) [outer + gap..<newHeight - (outer + gap)] result;
          ox = outer + gap + inner; oy = outer + gap + inner
      in paste_image currentImage ox oy result)"

definition solid_color :: "string \<Rightarrow> byte \<times> byte \<times> byte" where
  "solid_color frameType =
     (if suffix ''Blue'' frameType then (0, 0, 255)
      else if suffix ''Red'' frameType then (255, 0, 0)
      else if suffix ''Green'' frameType then (0, 255, 0)
      else if suffix ''White'' frameType then (255, 255, 255)
      else (0, 0, 0))"

definition frame_solid :: "Image \<Rightarrow> string \<Rightarrow> Image" where
  "frame_solid currentImage frameType =
     (let frame = 20;
          color = solid_color frameType;
          result = newImage (width currentImage + 2 * frame) (height currentImage + 2 * frame);
          result = fill_all color result
      in paste_image currentImage frame frame result)"

definition frame_shadow :: "Image \<Rightarrow> Image" where
  "frame_shadow currentImage =
     (let pad = 15; shadow = 18;
          newW = width currentImage + pad + shadow;
          newH = height currentImage + pad + shadow;
          result = newImage newW newH;
          result = fold (\<lambda>y. fold (\<lambda>x res. set3 res x y 20 20 20) [0..<newW]) [0..<newH] result;
          result = fold (\<lambda>y. fold (\<lambda>x res.
                     let dx = max 0 (int x - int (pad + width currentImage));
                         dy = max 0 (int y - int (pad + height currentImage));
                         dist = max dx dy;
                         shade = min 60 (dist * 6);
                         r = 20 + shade; g = 20 + shade; b = 20 + shade
                     in set3 res x y (toByte r) (toByte g) (toByte b))
                   [0..<newW]) [0..<newH] result
      in paste_image currentImage pad pad result)"

definition frame_gold :: "Image \<Rightarrow> Image" where
  "frame_gold currentImage =
     (let fw = 45;
          newW = width currentImage + 2 * fw;
          newH = height currentImage + 2 * fw;
          result = newImage newW newH;
          result = fold (\<lambda>y. fold (\<lambda>x res. set3 res x y 180 140 40) [0..<newW]) [0..<newH] result;
          result = fold (\<lambda>y. fold (\<lambda>x res.
                     let stripe = ((x + y) mod 11 = 0 \<or> (int x - int y + 1000) mod 13 = 0)
                     in if stripe then set3 res x y 200 160 60 else res)
                   [3..<newW - 3]) [3..<newH - 3] result;
          result = fold (\<lambda>y. fold (\<lambda>x res. set3 res x y 240 210 120)
                   [fw - 6..<newW - (fw - 6)]) [fw - 6..<newH - (fw - 6)] result
      in paste_image currentImage fw fw result)"

definition decorated_pixel :: "nat \<Rightarrow> nat \<Rightarrow> nat \<Rightarrow> nat \<Rightarrow> nat \<Rightarrow> Image \<Rightarrow> Image" where
  "decorated_pixel frameWidth newWidth newHeight x y res =
     (if x < frameWidth \<or> x \<ge> newWidth - frameWidth \<or> y < frameWidth \<or> y \<ge> newHeight - frameWidth
      then (let distFromEdge = min (min x y) (min (newWidth - 1 - x) (newHeight - 1 - y))
            in if distFromEdge < 3 then set3 res x y 100 70 50
               else if distFromEdge = 12 \<or> distFromEdge = 15 \<or> distFromEdge = 9
               then set3 res x y 180 140 80
               else if distFromEdge < frameWidth - 4
               then (let res = set3 res x y 235 225 210;
                         cornerDist = min (min x (newWidth - 1 - x)) (min y (newHeight - 1 - y))
                     in if cornerDist < frameWidth
                        then (if (x + y) mod 12 = 0 then set3 res x y 180 140 80 else res)
                        else res)
               else if distFromEdge \<ge> frameWidth - 4 \<and> distFromEdge < frameWidth - 1
               then set3 res x y 180 140 80
               else set3 res x y 100 70 50)
      else res)"

definition frame_decorated :: "Image \<Rightarrow> Image" where
  "frame_decorated currentImage =
     (let frameWidth = 25;
          originalWidth = width currentImage;
          originalHeight = height currentImage;
          newWidth = originalWidth + 2 * frameWidth;
          newHeight = originalHeight + 2 * frameWidth;
          result = newImage newWidth newHeight;
          result = paste_image currentImage frameWidth frameWidth result
      in fold (\<lambda>y. fold (\<lambda>x. decorated_pixel frameWidth newWidth newHeight x y) [0..<newWidth])
           [0..<newHeight] result)"

definition applyFrame :: "Image \<Rightarrow> string \<Rightarrow> error + Image" where
  "applyFrame currentImage frameType =
     (if frameType = ''Simple Frame'' then Inr (frame_simple currentImage)
      else if frameType = ''Double Border - White'' then Inr (frame_double_white currentImage)
      else if frameType = ''Solid Frame - Blue'' \<or> frameType = ''Solid Frame - Red'' \<or>
              frameType = ''Solid Frame - Green'' \<or> frameType = ''Solid Frame - Black'' \<or>
              frameType = ''Solid Frame - White''
      then Inr (frame_solid currentImage frameType)
      else if frameType = ''Shadow Frame'' then Inr (frame_shadow currentImage)
      else if frameType = ''Gold Decorated Frame'' then Inr (frame_gold currentImage)
      else Inr (frame_decorated currentImage))"

section \<open>Edge detection\<close>

definition luma :: "int \<Rightarrow> int \<Rightarrow> int \<Rightarrow> int" where
  "luma r g b =
     trunc (dadd (dadd (dmul (rd (299 / 1000)) (itod r)) (dmul (rd (587 / 1000)) (itod g)))
                 (dmul (rd (114 / 1000)) (itod b)))"

definition edges_gray :: "Image \<Rightarrow> Image" where
  "edges_gray currentImage =
     fold (\<lambda>y. fold (\<lambda>x gray.
             let r = uint (getPixel currentImage x y 0);
                 g = uint (getPixel currentImage x y 1);
                 b = uint (getPixel currentImage x y 2);
                 grayVal = luma r g b
             in set3 gray x y (toByte grayVal) (toByte grayVal) (toByte grayVal))
           [0..<width currentImage]) [0..<height currentImage]
       (newImage (width currentImage) (height currentImage))"

definition kernel5x5 :: "int list list" where
  "kernel5x5 = [[1, 4, 6, 4, 1], [4, 16, 24, 16, 4], [6, 24, 36, 24, 6], [4, 16, 24, 16, 4], [1, 4, 6, 4, 1]]"

definition kernelSum :: int where
  "kernelSum = 256"

definition gauss_sum :: "Image \<Rightarrow> nat \<Rightarrow> nat \<Rightarrow> int" where
  "gauss_sum gray x y =
     fold (\<lambda>ky. fold (\<lambda>kx sum.
             sum + uint (getPixel gray (nat (int x + kx)) (nat (int y + ky)) 0)
                     * kernel5x5 ! nat (ky + 2) ! nat (kx + 2))
           [-2..2]) [-2..2] 0"

definition edges_blur :: "Image \<Rightarrow> Image" where
  "edges_blur gray =
     fold (\<lambda>y. fold (\<lambda>x blurred.
             let sum = gauss_sum gray x y;
                 blurredVal = sum div kernelSum
             in set3 blurred x y (toByte blurredVal) (toByte blurredVal) (toByte blurredVal))
           [2..<width gray - 2]) [2..<height gray - 2]
       (newImage (width gray) (height gray))"

definition sobelX :: "int list list" where
  "sobelX = [[-1, 0, 1], [-2, 0, 2], [-1, 0, 1]]"

definition sobelY :: "int list list" where
  "sobelY = [[-1, -2, -1], [0, 0, 0], [1, 2, 1]]"

definition sobel_sums :: "Image \<Rightarrow> nat \<Rightarrow> nat \<Rightarrow> int \<times> int" where
  "sobel_sums blurred x y =
     fold (\<lambda>ky. fold (\<lambda>kx (gx, gy).
             let pixelVal = uint (getPixel blurred (nat (int x + kx)) (nat (int y + ky)) 0)
             in (gx + pixelVal * sobelX ! nat (ky + 1) ! nat (kx + 1),
                 gy + pixelVal * sobelY ! nat (ky + 1) ! nat (kx + 1)))
           [-1..1]) [-1..1] (0, 0)"

definition edge_value :: "int \<Rightarrow> int \<Rightarrow> int" where
  "edge_value gx gy =
     (let magnitude = int (isqrt (nat (gx * gx + gy * gy)));
          magnitude = min 255 (max 0 magnitude)
      in if magnitude > 50 then 0 else 255)"

definition edges_sobel :: "Image \<Rightarrow> Image" where
  "edges_sobel blurred =
     fold (\<lambda>y. fold (\<lambda>x edge.
             case sobel_sums blurred x y of (gx, gy) \<Rightarrow>
               let edgeVal = edge_value gx gy
               in set3 edge x y (toByte edgeVal) (toByte edgeVal) (toByte edgeVal))
           [1..<width blurred - 1]) [1..<height blurred - 1]
       (newImage (width blurred) (height blurred))"

definition applyEdges :: "Image \<Rightarrow> Image" where
  "applyEdges currentImage = edges_sobel (edges_blur (edges_gray currentImage))"

section \<open>Resize\<close>

text \<open>
  The source coordinates are computed in \<^verbatim>\<open>double\<close> and bounded from above only, so the
  accesses are checked. An exception of the accessor is caught inside \<^verbatim>\<open>applyResize\<close>,
  which then leaves \<open>currentImage\<close> as it was. The target dimensions are natural numbers:
  the dialog of the caller offers 1 to 10000.
\<close>

definition resize_pixel :: "Image \<Rightarrow> rat \<Rightarrow> rat \<Rightarrow> nat \<Rightarrow> nat \<Rightarrow> Image \<Rightarrow> error + Image" where
  "resize_pixel currentImage xRatio yRatio x y result =
     (let srcX = trunc (dmul (itod (int x)) xRatio);
          srcY = trunc (dmul (itod (int y)) yRatio);
          srcX = min srcX (int (width currentImage) - 1);
          srcY = min srcY (int (height currentImage) - 1)
      in bindE (getPixelAt currentImage srcX srcY 0) (\<lambda>r.
         bindE (getPixelAt currentImage srcX srcY 1) (\<lambda>g.
         bindE (getPixelAt currentImage srcX srcY 2) (\<lambda>b.
           Inr (set3 result x y r g b)))))"

definition applyResize :: "Image \<Rightarrow> nat \<Rightarrow> nat \<Rightarrow> Image" where
  "applyResize currentImage w h =
     (let xRatio = ddiv (itod (int (width currentImage))) (itod (int w));
          yRatio = ddiv (itod (int (height currentImage))) (itod (int h))
      in case foldE (\<lambda>y. foldE (\<lambda>x. resize_pixel currentImage xRatio yRatio x y) [0..<w]) [0..<h]
                (newImage w h) of
           Inl e \<Rightarrow> currentImage
         | Inr result \<Rightarrow> result)"

section \<open>History manager\<close>

text \<open>
  Modelled from the spec: the class \<^verbatim>\<open>HistoryManager\<close> of
  \<^verbatim>\<open>core/history/HistoryManager.h\<close> is missing; only its use in the main window is at
  hand. The specification gives it two bounded stacks of snapshots and a capacity \<open>N\<close>.
  \<open>pushUndo\<close> stores a copy of the buffer on the undo stack, evicts the oldest entry if the
  capacity is exceeded, and clears the redo stack. \<open>undo\<close> pops the most recent undo entry,
  pushes the current state on the redo stack and writes the popped snapshot into the caller's
  buffer; it returns false, changing nothing, on an empty undo stack. \<open>redo\<close> is the mirror
  operation. The stacks are lists with the oldest entry first.
\<close>

record HistoryManager =
  capacity :: nat
  undoStack :: "Image list"
  redoStack :: "Image list"

definition newHistory :: "nat \<Rightarrow> HistoryManager" where
  "newHistory N = \<lparr>capacity = N, undoStack = [], redoStack = []\<rparr>"

definition pushUndo :: "HistoryManager \<Rightarrow> Image \<Rightarrow> HistoryManager" where
  "pushUndo h snapshot =
     (let u = undoStack h @ [snapshot];
          u = (if length u > capacity h then tl u else u)
      in h\<lparr>undoStack := u, redoStack := []\<rparr>)"

definition undo :: "HistoryManager \<Rightarrow> Image \<Rightarrow> bool \<times> HistoryManager \<times> Image" where
  "undo h current =
     (if undoStack h = [] then (False, h, current)
      else (True,
            h\<lparr>undoStack := butlast (undoStack h), redoStack := redoStack h @ [current]\<rparr>,
            last (undoStack h)))"

definition redo :: "HistoryManager \<Rightarrow> Image \<Rightarrow> bool \<times> HistoryManager \<times> Image" where
  "redo h current =
     (if redoStack h = [] then (False, h, current)
      else (True,
            h\<lparr>redoStack := butlast (redoStack h), undoStack := undoStack h @ [current]\<rparr>,
            last (redoStack h)))"

definition canUndo :: "HistoryManager \<Rightarrow> bool" where
  "canUndo h = (undoStack h \<noteq> [])"

definition canRedo :: "HistoryManager \<Rightarrow> bool" where
  "canRedo h = (redoStack h \<noteq> [])"

definition clear :: "HistoryManager \<Rightarrow> HistoryManager" where
  "clear h = h\<lparr>undoStack := [], redoStack := []\<rparr>"

text \<open>
  The main window (\<^verbatim>\<open>photo_smith.cpp\<close>) owns \<^verbatim>\<open>HistoryManager history{20}\<close> and pushes the
  current image before every mutation.
\<close>

definition history0 :: HistoryManager where
  "history0 = newHistory 20"

definition saveStateForUndo :: "bool \<Rightarrow> HistoryManager \<Rightarrow> Image \<Rightarrow> HistoryManager" where
  "saveStateForUndo hasImage history currentImage =
     (if \<not> hasImage then history else pushUndo history currentImage)"

text \<open>A run of the history manager: the operations a caller can issue, applied in order.\<close>

datatype history_op = PushUndo Image | Undo | Redo | Clear

fun history_step :: "history_op \<Rightarrow> HistoryManager \<times> Image \<Rightarrow> HistoryManager \<times> Image" where
  "history_step (PushUndo img) (h, current) = (pushUndo h current, img)"
| "history_step Undo (h, current) = (case undo h current of (ok, h', out) \<Rightarrow> (h', out))"
| "history_step Redo (h, current) = (case redo h current of (ok, h', out) \<Rightarrow> (h', out))"
| "history_step Clear (h, current) = (clear h, current)"

section \<open>Loops that rewrite one pixel at a time\<close>

text \<open>
  Most loop bodies write the three channels of the pixel \<open>(x, y)\<close> and read, of the buffer
  they write to, at most that same pixel. \<open>local_update F g\<close> says so of a body \<open>F\<close>:
  it keeps the dimensions and changes nothing but the pixel \<open>(x, y)\<close>, whose new channel
  \<open>c\<close> is \<open>g x y p c\<close> for the old value \<open>p\<close> of that pixel.
\<close>

definition px :: "Image \<Rightarrow> nat \<Rightarrow> nat \<Rightarrow> byte \<times> byte \<times> byte" where
  "px img x y = (getPixel img x y 0, getPixel img x y 1, getPixel img x y 2)"

definition local_update ::
    "(nat \<Rightarrow> nat \<Rightarrow> Image \<Rightarrow> Image) \<Rightarrow> (nat \<Rightarrow> nat \<Rightarrow> byte \<times> byte \<times> byte \<Rightarrow> nat \<Rightarrow> byte) \<Rightarrow> bool" where
  "local_update F g =
     (\<forall>img x y. wf_image img \<and> x < width img \<and> y < height img \<longrightarrow>
        width (F x y img) = width img \<and> height (F x y img) = height img \<and> wf_image (F x y img) \<and>
        (\<forall>x' y' c'. x' < width img \<and> y' < height img \<and> c' < 3 \<longrightarrow>
           getPixel (F x y img) x' y' c' =
             (if x' = x \<and> y' = y then g x y (px img x y) c' else getPixel img x' y' c')))"

definition chan :: "byte \<times> byte \<times> byte \<Rightarrow> nat \<Rightarrow> byte" where
  "chan p c = (case p of (r, g, b) \<Rightarrow> if c = 0 then r else if c = 1 then g else b)"


section \<open>Box mean\<close>

text \<open>
  The blur of the specification, in its own words: the mean of all in-bounds samples of the
  \<open>(2r+1) \<times> (2r+1)\<close> window centred on the pixel, with the number of those samples as the
  divisor. \<open>window img r x y\<close> lists the in-bounds positions at the offsets \<open>-r..r\<close> in both
  directions.
\<close>

definition window :: "Image \<Rightarrow> int \<Rightarrow> nat \<Rightarrow> nat \<Rightarrow> (int \<times> int) list" where
  "window img r x y =
     concat (map (\<lambda>i. map (\<lambda>j. (int x + j, int y + i))
                          (filter (\<lambda>j. in_image img (int x + j) (int y + i)) [- r..r]))
                 [- r..r])"

definition sample :: "Image \<Rightarrow> nat \<Rightarrow> int \<times> int \<Rightarrow> int" where
  "sample img c p = uint (getPixel img (nat (fst p)) (nat (snd p)) c)"

definition box_mean :: "Image \<Rightarrow> int \<Rightarrow> nat \<Rightarrow> nat \<Rightarrow> nat \<Rightarrow> int" where
  "box_mean img r x y c =
     sum_list (map (sample img c) (window img r x y)) div int (length (window img r x y))"

definition blur_add :: "Image \<Rightarrow> int \<times> int \<Rightarrow> int \<times> int \<times> int \<times> int \<Rightarrow> int \<times> int \<times> int \<times> int" where
  "blur_add img p acc =
     (case acc of (R, G, B, count) \<Rightarrow>
        (R + sample img 0 p, G + sample img 1 p, B + sample img 2 p, count + 1))"


section \<open>Histograms of oil painting\<close>

text \<open>
  After \<open>n\<close> samples every count of a histogram lies between 0 and \<open>n\<close> and every colour
  sum between 0 and \<open>255 * n\<close>.
\<close>

definition hist_bounded :: "nat \<Rightarrow> histogram \<Rightarrow> bool" where
  "hist_bounded n hist =
     (case hist of (colorCount, redSum, greenSum, blueSum) \<Rightarrow>
        length colorCount = 256 \<and> length redSum = 256 \<and> length greenSum = 256 \<and>
        length blueSum = 256 \<and>
        (\<forall>k < 256. 0 \<le> colorCount ! k \<and> colorCount ! k \<le> int n \<and>
                   0 \<le> redSum ! k \<and> redSum ! k \<le> 255 * int n \<and>
                   0 \<le> greenSum ! k \<and> greenSum ! k \<le> 255 * int n \<and>
                   0 \<le> blueSum ! k \<and> blueSum ! k \<le> 255 * int n))"


section \<open>Edge detection, stage by stage\<close>

text \<open>
  The pipeline of the specification in its own words, to be compared with the loops of the
  source. Its Gaussian blur has the standard binomial weights: the weight of the offset
  \<open>(kx, ky)\<close>, both between \<open>-2\<close> and \<open>2\<close>, is the product of the binomial coefficients
  \<open>4 choose (kx + 2)\<close> and \<open>4 choose (ky + 2)\<close>, that is of two entries of the row
  1, 4, 6, 4, 1. The Gaussian sum and the two Sobel gradients are plain sums over the
  neighbourhood of a pixel.
\<close>

definition binomial_weight :: "int \<Rightarrow> int" where
  "binomial_weight k = int (4 choose nat (k + 2))"

definition gauss_spec :: "Image \<Rightarrow> nat \<Rightarrow> nat \<Rightarrow> int" where
  "gauss_spec gray x y =
     (\<Sum>ky\<leftarrow>[-2..2]. \<Sum>kx\<leftarrow>[-2..2].
        uint (getPixel gray (nat (int x + kx)) (nat (int y + ky)) 0)
          * (binomial_weight ky * binomial_weight kx))"

definition sobel_gx :: "Image \<Rightarrow> nat \<Rightarrow> nat \<Rightarrow> int" where
  "sobel_gx p x y =
     (uint (getPixel p (x + 1) (y - 1) 0) + 2 * uint (getPixel p (x + 1) y 0)
        + uint (getPixel p (x + 1) (y + 1) 0))
     - (uint (getPixel p (x - 1) (y - 1) 0) + 2 * uint (getPixel p (x - 1) y 0)
        + uint (getPixel p (x - 1) (y + 1) 0))"

definition sobel_gy :: "Image \<Rightarrow> nat \<Rightarrow> nat \<Rightarrow> int" where
  "sobel_gy p x y =
     (uint (getPixel p (x - 1) (y + 1) 0) + 2 * uint (getPixel p x (y + 1) 0)
        + uint (getPixel p (x + 1) (y + 1) 0))
     - (uint (getPixel p (x - 1) (y - 1) 0) + 2 * uint (getPixel p x (y - 1) 0)
        + uint (getPixel p (x + 1) (y - 1) 0))"

section \<open>Basic facts about the pixel buffer\<close>

lemma width_setPixel [simp]: "width (setPixel img x y c v) = width img"
  by (simp add: setPixel_def)

lemma height_setPixel [simp]: "height (setPixel img x y c v) = height img"
  by (simp add: setPixel_def)

lemma length_setPixel [simp]: "length (imageData (setPixel img x y c v)) = length (imageData img)"
  by (simp add: setPixel_def)

lemma wf_setPixel [simp]: "wf_image (setPixel img x y c v) = wf_image img"
  by (simp add: wf_image_def)

lemma idx_setPixel [simp]: "idx (setPixel img x y c v) = idx img"
  by (simp add: idx_def fun_eq_iff)

lemma idx_less:
  assumes "wf_image img" "x < width img" "y < height img" "c < 3"
  shows "idx img x y c < length (imageData img)"
proof -
  have "y * width img + x < (y + 1) * width img"
    using assms(2) by simp
  also have "\<dots> \<le> height img * width img"
    using assms(3) by (intro mult_le_mono1) simp
  finally have "y * width img + x + 1 \<le> width img * height img"
    by (simp add: mult.commute)
  then have "(y * width img + x + 1) * 3 \<le> width img * height img * 3"
    by simp
  then show ?thesis
    using assms(1,4) by (simp add: idx_def wf_image_def channels_def)
qed

lemma idx_inj:
  assumes "x < width img" "x' < width img" "c < 3" "c' < 3"
  shows "idx img x y c = idx img x' y' c' \<longleftrightarrow> x = x' \<and> y = y' \<and> c = c'"
proof
  assume e: "idx img x y c = idx img x' y' c'"
  have "(y * width img + x) * 3 + c = (y' * width img + x') * 3 + c'"
    using e by (simp add: idx_def channels_def)
  with assms(3,4) have c: "c = c'" and p: "y * width img + x = y' * width img + x'"
    by presburger+
  from p have "(y * width img + x) div width img = (y' * width img + x') div width img"
    by simp
  with assms(1,2) have yy: "y = y'" by simp
  with p have "x = x'" by simp
  with c yy show "x = x' \<and> y = y' \<and> c = c'" by simp
qed simp

lemma getPixel_setPixel:
  assumes "wf_image img" "x < width img" "y < height img" "c < 3" "x' < width img" "c' < 3"
  shows "getPixel (setPixel img x y c v) x' y' c' =
           (if x' = x \<and> y' = y \<and> c' = c then v else getPixel img x' y' c')"
proof -
  have g: "getPixel (setPixel img x y c v) x' y' c' =
             (imageData img)[idx img x y c := v] ! idx img x' y' c'"
    by (simp add: getPixel_def) (simp add: setPixel_def)
  show ?thesis
  proof (cases "x' = x \<and> y' = y \<and> c' = c")
    case True
    then show ?thesis
      unfolding g using idx_less [OF assms(1-4)] by simp
  next
    case False
    then have "idx img x y c \<noteq> idx img x' y' c'"
      using idx_inj [of x img x' c c' y y'] assms by auto
    then have "(imageData img)[idx img x y c := v] ! idx img x' y' c' = imageData img ! idx img x' y' c'"
      by (rule nth_list_update_neq)
    with False show ?thesis
      unfolding g by (auto simp: getPixel_def)
  qed
qed

lemma Image_eqI:
  assumes wa: "wf_image a" and wb: "wf_image b"
    and w: "width a = width b" and h: "height a = height b"
    and px: "\<And>x y c. x < width a \<Longrightarrow> y < height a \<Longrightarrow> c < 3 \<Longrightarrow> getPixel a x y c = getPixel b x y c"
  shows "a = b"
proof -
  have len: "length (imageData a) = length (imageData b)"
    using wa wb w h by (simp add: wf_image_def)
  have "imageData a = imageData b"
  proof (rule nth_equalityI [OF len])
    fix i assume i: "i < length (imageData a)"
    then have i3: "i < width a * height a * 3"
      using wa by (simp add: wf_image_def channels_def)
    define c where "c = i mod 3"
    define p where "p = i div 3"
    define x where "x = p mod width a"
    define y where "y = p div width a"
    have pw: "p < width a * height a"
      using i3 by (simp add: p_def less_mult_imp_div_less)
    then have wpos: "0 < width a"
      by (cases "width a") auto
    have c3: "c < 3" by (simp add: c_def)
    have xw: "x < width a" using wpos by (simp add: x_def)
    have yh: "y < height a"
      using pw by (simp add: y_def less_mult_imp_div_less mult.commute)
    have "i = (y * width a + x) * 3 + c"
      by (simp add: c_def p_def x_def y_def)
    then have ia: "i = idx a x y c" and ib: "i = idx b x y c"
      using w by (simp_all add: idx_def channels_def)
    from px [OF xw yh c3] show "imageData a ! i = imageData b ! i"
      unfolding getPixel_def ia [symmetric] ib [symmetric] .
  qed
  with w h show ?thesis by simp
qed

lemma local_updateD:
  assumes "local_update F g" "wf_image img" "x < width img" "y < height img"
  shows "width (F x y img) = width img" "height (F x y img) = height img" "wf_image (F x y img)"
    and "\<And>x' y' c'. x' < width img \<Longrightarrow> y' < height img \<Longrightarrow> c' < 3 \<Longrightarrow>
           getPixel (F x y img) x' y' c' =
             (if x' = x \<and> y' = y then g x y (px img x y) c' else getPixel img x' y' c')"
  using assms unfolding local_update_def by blast+

lemma px_local_update_other:
  assumes "local_update F g" "wf_image img" "x < width img" "y < height img"
    and "x' < width img" "y' < height img" "x' \<noteq> x \<or> y' \<noteq> y"
  shows "px (F x y img) x' y' = px img x' y'"
  using assms(5-7) by (auto simp: px_def local_updateD(4) [OF assms(1-4)])

lemma fold_row_local:
  assumes F: "local_update F g"
  shows "wf_image img \<Longrightarrow> y < height img \<Longrightarrow> set xs \<subseteq> {..<width img} \<Longrightarrow> distinct xs \<Longrightarrow>
         width (fold (\<lambda>x. F x y) xs img) = width img \<and>
         height (fold (\<lambda>x. F x y) xs img) = height img \<and>
         wf_image (fold (\<lambda>x. F x y) xs img) \<and>
         (\<forall>x' y' c'. x' < width img \<and> y' < height img \<and> c' < 3 \<longrightarrow>
            getPixel (fold (\<lambda>x. F x y) xs img) x' y' c' =
              (if y' = y \<and> x' \<in> set xs then g x' y (px img x' y) c' else getPixel img x' y' c'))"
proof (induction xs arbitrary: img)
  case Nil
  then show ?case by simp
next
  case (Cons x xs)
  have xw: "x < width img" using Cons.prems(3) by simp
  note U = local_updateD [OF F Cons.prems(1) xw Cons.prems(2)]
  have IH: "width (fold (\<lambda>x. F x y) xs (F x y img)) = width (F x y img) \<and>
         height (fold (\<lambda>x. F x y) xs (F x y img)) = height (F x y img) \<and>
         wf_image (fold (\<lambda>x. F x y) xs (F x y img)) \<and>
         (\<forall>x' y' c'. x' < width (F x y img) \<and> y' < height (F x y img) \<and> c' < 3 \<longrightarrow>
            getPixel (fold (\<lambda>x. F x y) xs (F x y img)) x' y' c' =
              (if y' = y \<and> x' \<in> set xs then g x' y (px (F x y img) x' y) c'
               else getPixel (F x y img) x' y' c'))"
    using Cons.prems U(1-3) by (intro Cons.IH) auto
  have other: "px (F x y img) x' y = px img x' y" if "x' \<in> set xs" for x'
  proof -
    have "x' < width img" "x' \<noteq> x"
      using that Cons.prems(3,4) by auto
    then show ?thesis
      using px_local_update_other [OF F Cons.prems(1) xw Cons.prems(2), of x' y] Cons.prems(2) by simp
  qed
  show ?case
  proof (intro conjI allI impI)
    fix x' y' c' :: nat
    assume a: "x' < width img \<and> y' < height img \<and> c' < 3"
    then have "getPixel (fold (\<lambda>x. F x y) xs (F x y img)) x' y' c' =
              (if y' = y \<and> x' \<in> set xs then g x' y (px (F x y img) x' y) c'
               else getPixel (F x y img) x' y' c')"
      using IH U(1,2) by simp
    also have "\<dots> = (if y' = y \<and> x' \<in> set (x # xs) then g x' y (px img x' y) c'
               else getPixel img x' y' c')"
      using a other U(4) [of x' y' c'] Cons.prems(4) by auto
    finally show "getPixel (fold (\<lambda>x. F x y) (x # xs) img) x' y' c' =
              (if y' = y \<and> x' \<in> set (x # xs) then g x' y (px img x' y) c'
               else getPixel img x' y' c')"
      by simp
  qed (use IH U(1,2) in simp_all)
qed

lemma fold_rows_local:
  assumes F: "local_update F g"
  shows "wf_image img \<Longrightarrow> set xs \<subseteq> {..<width img} \<Longrightarrow> distinct xs \<Longrightarrow>
         set ys \<subseteq> {..<height img} \<Longrightarrow> distinct ys \<Longrightarrow>
         width (fold (\<lambda>y. fold (\<lambda>x. F x y) xs) ys img) = width img \<and>
         height (fold (\<lambda>y. fold (\<lambda>x. F x y) xs) ys img) = height img \<and>
         wf_image (fold (\<lambda>y. fold (\<lambda>x. F x y) xs) ys img) \<and>
         (\<forall>x' y' c'. x' < width img \<and> y' < height img \<and> c' < 3 \<longrightarrow>
            getPixel (fold (\<lambda>y. fold (\<lambda>x. F x y) xs) ys img) x' y' c' =
              (if x' \<in> set xs \<and> y' \<in> set ys then g x' y' (px img x' y') c' else getPixel img x' y' c'))"
proof (induction ys arbitrary: img)
  case Nil
  then show ?case by simp
next
  case (Cons y ys)
  let ?r = "fold (\<lambda>x. F x y) xs img"
  have yh: "y < height img" using Cons.prems(4) by simp
  note R = fold_row_local [OF F Cons.prems(1) yh Cons.prems(2,3)]
  have IH: "width (fold (\<lambda>y. fold (\<lambda>x. F x y) xs) ys ?r) = width ?r \<and>
         height (fold (\<lambda>y. fold (\<lambda>x. F x y) xs) ys ?r) = height ?r \<and>
         wf_image (fold (\<lambda>y. fold (\<lambda>x. F x y) xs) ys ?r) \<and>
         (\<forall>x' y' c'. x' < width ?r \<and> y' < height ?r \<and> c' < 3 \<longrightarrow>
            getPixel (fold (\<lambda>y. fold (\<lambda>x. F x y) xs) ys ?r) x' y' c' =
              (if x' \<in> set xs \<and> y' \<in> set ys then g x' y' (px ?r x' y') c' else getPixel ?r x' y' c'))"
    using Cons.prems R by (intro Cons.IH) auto
  have other: "px ?r x' y' = px img x' y'" if "y' \<in> set ys" "x' < width img" for x' y'
  proof -
    have "y' < height img" "y' \<noteq> y"
      using that Cons.prems(4,5) by auto
    then show ?thesis
      using R that(2) by (simp add: px_def)
  qed
  show ?case
  proof (intro conjI allI impI)
    fix x' y' c' :: nat
    assume a: "x' < width img \<and> y' < height img \<and> c' < 3"
    then have "getPixel (fold (\<lambda>y. fold (\<lambda>x. F x y) xs) ys ?r) x' y' c' =
              (if x' \<in> set xs \<and> y' \<in> set ys then g x' y' (px ?r x' y') c' else getPixel ?r x' y' c')"
      using IH R by simp
    also have "\<dots> = (if x' \<in> set xs \<and> y' \<in> set (y # ys) then g x' y' (px img x' y') c'
               else getPixel img x' y' c')"
      using a other R Cons.prems(5) by auto
    finally show "getPixel (fold (\<lambda>y. fold (\<lambda>x. F x y) xs) (y # ys) img) x' y' c' =
              (if x' \<in> set xs \<and> y' \<in> set (y # ys) then g x' y' (px img x' y') c'
               else getPixel img x' y' c')"
      by simp
  qed (use IH R in simp_all)
qed

lemma set3_local:
  fixes a b d :: byte
  assumes "wf_image img" "x < width img" "y < height img"
  defines "r \<equiv> set3 img x y a b d"
  shows "width r = width img" "height r = height img" "wf_image r"
    and "\<And>x' y' c'. x' < width img \<Longrightarrow> c' < 3 \<Longrightarrow>
           getPixel r x' y' c' = (if x' = x \<and> y' = y then chan (a, b, d) c' else getPixel img x' y' c')"
proof -
  show "width r = width img" "height r = height img" "wf_image r"
    using assms(1) by (simp_all add: r_def set3_def)
  fix x' y' c' :: nat
  assume a: "x' < width img" "c' < 3"
  have "c' = 0 \<or> c' = 1 \<or> c' = 2" using a(2) by arith
  then show "getPixel r x' y' c' = (if x' = x \<and> y' = y then chan (a, b, d) c' else getPixel img x' y' c')"
    using assms(1-3) a by (auto simp: r_def set3_def getPixel_setPixel chan_def)
qed

lemma upt_below: "set [0..<n] \<subseteq> {..<n}"
  by auto

lemma cancelable_loop_never:
  "\<forall>y \<in> set ys. \<not> cancel y \<Longrightarrow> cancelable_loop cancel step ys s = Inr (fold step ys s)"
  by (induction ys arbitrary: s) auto

lemma cancelable_loop_cancelled:
  "\<exists>y \<in> set ys. cancel y \<Longrightarrow> \<exists>y s'. cancelable_loop cancel step ys s = Inl (y, s') \<and> cancel y"
  by (induction ys arbitrary: s) auto

lemma fold_row_fun:
  assumes F: "local_update F g"
    and R: "\<And>y img. R y img = fold (\<lambda>x. F x y) [0..<width img] img"
  shows "wf_image img \<Longrightarrow> set ys \<subseteq> {..<height img} \<Longrightarrow>
           fold R ys img = fold (\<lambda>y. fold (\<lambda>x. F x y) [0..<width img]) ys img"
proof (induction ys arbitrary: img)
  case Nil
  then show ?case by simp
next
  case (Cons y ys)
  have yh: "y < height img" using Cons.prems(2) by simp
  have L: "width (R y img) = width img \<and> height (R y img) = height img \<and> wf_image (R y img)"
    using fold_row_local [OF F Cons.prems(1) yh upt_below distinct_upt] by (simp add: R)
  have "fold R ys (R y img) = fold (\<lambda>v. fold (\<lambda>x. F x v) [0..<width (R y img)]) ys (R y img)"
    by (rule Cons.IH) (use Cons.prems L in auto)
  then show ?case
    using L by (simp add: R [of y img])
qed

lemma rows_local:
  assumes F: "local_update F g"
    and R: "\<And>y img. R y img = fold (\<lambda>x. F x y) [0..<width img] img"
    and wf: "wf_image img"
  shows "width (fold R [0..<height img] img) = width img"
    and "height (fold R [0..<height img] img) = height img"
    and "wf_image (fold R [0..<height img] img)"
    and "\<And>x y c. x < width img \<Longrightarrow> y < height img \<Longrightarrow> c < 3 \<Longrightarrow>
           getPixel (fold R [0..<height img] img) x y c = g x y (px img x y) c"
proof -
  have e: "fold R [0..<height img] img =
           fold (\<lambda>y. fold (\<lambda>x. F x y) [0..<width img]) [0..<height img] img"
    by (rule fold_row_fun [OF F R wf upt_below])
  note L = fold_rows_local [OF F wf upt_below distinct_upt upt_below distinct_upt]
  show "width (fold R [0..<height img] img) = width img"
    and "height (fold R [0..<height img] img) = height img"
    and "wf_image (fold R [0..<height img] img)"
    using L by (simp_all add: e)
  fix x y c :: nat
  assume "x < width img" "y < height img" "c < 3"
  then show "getPixel (fold R [0..<height img] img) x y c = g x y (px img x y) c"
    using L by (simp add: e)
qed

section \<open>Grayscale: a completed run\<close>

lemma grayscale_pixel_local:
  "local_update grayscale_pixel
     (\<lambda>x y p c. case p of (r, g, b) \<Rightarrow> toByte ((uint r + uint g + uint b) div 3))"
  unfolding local_update_def
proof (intro allI impI, elim conjE)
  fix img x y
  assume a: "wf_image img" "x < width img" "y < height img"
  let ?gray = "toByte ((uint (getPixel img x y 0) + uint (getPixel img x y 1) + uint (getPixel img x y 2)) div 3)"
  have e: "grayscale_pixel x y img = set3 img x y ?gray ?gray ?gray"
    by (simp add: grayscale_pixel_def Let_def)
  note S = set3_local [OF a, where a = ?gray and b = ?gray and d = ?gray]
  show "width (grayscale_pixel x y img) = width img \<and>
        height (grayscale_pixel x y img) = height img \<and>
        wf_image (grayscale_pixel x y img) \<and>
        (\<forall>x' y' c'. x' < width img \<and> y' < height img \<and> c' < 3 \<longrightarrow>
           getPixel (grayscale_pixel x y img) x' y' c' =
             (if x' = x \<and> y' = y
              then case px img x y of (r, g, b) \<Rightarrow> toByte ((uint r + uint g + uint b) div 3)
              else getPixel img x' y' c'))"
    unfolding e using S by (simp add: px_def chan_def)
qed

lemma uint_toByte: "0 \<le> v \<Longrightarrow> v < 256 \<Longrightarrow> uint (toByte v) = v"
  by (simp add: toByte_def uint_word_of_int take_bit_int_eq_self)

lemma uint_byte_less: "uint (b :: byte) < 256"
  using uint_bounded [of b] by simp

text \<open>
  C2. After a completed (never cancelled) run of \<open>applyGrayscale\<close> on a well-formed buffer,
  each of the three channels of every pixel \<open>(x, y)\<close> holds \<open>(R + G + B) div 3\<close>, the
  integer quotient of the sum of the three input channels at \<open>(x, y)\<close>.
\<close>

theorem applyGrayscale_completed:
  assumes "wf_image currentImage"
    and "\<forall>y < height currentImage. \<not> cancel y"
    and "x < width currentImage" "y < height currentImage" "c < 3"
  shows "fst (applyGrayscale currentImage preFilterImage cancel) = Completed \<and>
         uint (getPixel (snd (applyGrayscale currentImage preFilterImage cancel)) x y c) =
           (uint (getPixel currentImage x y 0) + uint (getPixel currentImage x y 1)
              + uint (getPixel currentImage x y 2)) div 3"
proof -
  let ?s = "uint (getPixel currentImage x y 0) + uint (getPixel currentImage x y 1)
              + uint (getPixel currentImage x y 2)"
  have run: "applyGrayscale currentImage preFilterImage cancel =
               (Completed, fold grayscale_row [0..<height currentImage] currentImage)"
    using assms(2) by (simp add: applyGrayscale_def cancelable_loop_never)
  have "getPixel (fold grayscale_row [0..<height currentImage] currentImage) x y c = toByte (?s div 3)"
    using rows_local(4) [OF grayscale_pixel_local _ assms(1,3-5), of grayscale_row]
    by (simp add: grayscale_row_def px_def)
  moreover have "0 \<le> ?s div 3" "?s div 3 < 256"
    using uint_byte_less [of "getPixel currentImage x y 0"]
      uint_byte_less [of "getPixel currentImage x y 1"]
      uint_byte_less [of "getPixel currentImage x y 2"]
      uint_ge_0 [of "getPixel currentImage x y 0"]
      uint_ge_0 [of "getPixel currentImage x y 1"]
      uint_ge_0 [of "getPixel currentImage x y 2"]
    by linarith+
  ultimately show ?thesis
    by (simp add: run uint_toByte)
qed

theorem applyGrayscale_completed_witness:
  "wf_image \<lparr>width = 1, height = 1, imageData = [100, 150, 200]\<rparr> \<and>
   fst (applyGrayscale \<lparr>width = 1, height = 1, imageData = [100, 150, 200]\<rparr>
          \<lparr>width = 1, height = 1, imageData = [100, 150, 200]\<rparr> (\<lambda>_. False)) = Completed \<and>
   uint (getPixel (snd (applyGrayscale \<lparr>width = 1, height = 1, imageData = [100, 150, 200]\<rparr>
          \<lparr>width = 1, height = 1, imageData = [100, 150, 200]\<rparr> (\<lambda>_. False))) 0 0 2) = 150"
  using applyGrayscale_completed [of "\<lparr>width = 1, height = 1, imageData = [100, 150, 200]\<rparr>"
      "\<lambda>_. False" 0 0 2 "\<lparr>width = 1, height = 1, imageData = [100, 150, 200]\<rparr>"]
  by (simp add: wf_image_def channels_def getPixel_def idx_def)

section \<open>Invert: twice is the identity\<close>

lemma invert_byte: "toByte (255 - uint v) = 255 - v"
  by (simp add: toByte_def)

lemma invert_pixel_set3:
  assumes "wf_image img" "x < width img" "y < height img"
  shows "invert_pixel x y img =
           set3 img x y (255 - getPixel img x y 0) (255 - getPixel img x y 1) (255 - getPixel img x y 2)"
proof -
  let ?a = "255 - getPixel img x y 0"
  let ?img1 = "setPixel img x y 0 ?a"
  have g1: "getPixel ?img1 x y 1 = getPixel img x y 1"
    using assms by (simp add: getPixel_setPixel)
  let ?b = "255 - getPixel img x y 1"
  let ?img2 = "setPixel ?img1 x y 1 ?b"
  have "getPixel ?img2 x y 2 = getPixel ?img1 x y 2"
    using assms by (simp add: getPixel_setPixel)
  also have "\<dots> = getPixel img x y 2"
    using assms by (simp add: getPixel_setPixel)
  finally have g2: "getPixel ?img2 x y 2 = getPixel img x y 2" .
  show ?thesis
    by (simp only: invert_pixel_def Let_def invert_byte g1 g2 set3_def)
qed

lemma invert_pixel_local:
  "local_update invert_pixel (\<lambda>x y p c. case p of (r, g, b) \<Rightarrow> chan (255 - r, 255 - g, 255 - b) c)"
  unfolding local_update_def
proof (intro allI impI, elim conjE)
  fix img x y
  assume a: "wf_image img" "x < width img" "y < height img"
  note S = set3_local [OF a, where a = "255 - getPixel img x y 0" and b = "255 - getPixel img x y 1"
      and d = "255 - getPixel img x y 2"]
  show "width (invert_pixel x y img) = width img \<and>
        height (invert_pixel x y img) = height img \<and>
        wf_image (invert_pixel x y img) \<and>
        (\<forall>x' y' c'. x' < width img \<and> y' < height img \<and> c' < 3 \<longrightarrow>
           getPixel (invert_pixel x y img) x' y' c' =
             (if x' = x \<and> y' = y
              then case px img x y of (r, g, b) \<Rightarrow> chan (255 - r, 255 - g, 255 - b) c'
              else getPixel img x' y' c'))"
    unfolding invert_pixel_set3 [OF a] using S by (simp add: px_def)
qed

lemma invert_completed:
  assumes "wf_image img" "\<forall>y < height img. \<not> cancel y"
  shows "applyInvert img pre cancel = (Completed, fold invert_row [0..<height img] img)"
    and "width (fold invert_row [0..<height img] img) = width img"
    and "height (fold invert_row [0..<height img] img) = height img"
    and "wf_image (fold invert_row [0..<height img] img)"
    and "\<And>x y c. x < width img \<Longrightarrow> y < height img \<Longrightarrow> c < 3 \<Longrightarrow>
           getPixel (fold invert_row [0..<height img] img) x y c = 255 - getPixel img x y c"
proof -
  show "applyInvert img pre cancel = (Completed, fold invert_row [0..<height img] img)"
    using assms(2) by (simp add: applyInvert_def cancelable_loop_never)
  note R = rows_local [OF invert_pixel_local _ assms(1), of invert_row]
  show "width (fold invert_row [0..<height img] img) = width img"
    and "height (fold invert_row [0..<height img] img) = height img"
    and "wf_image (fold invert_row [0..<height img] img)"
    using R(1-3) by (simp_all add: invert_row_def)
  fix x y c :: nat
  assume a: "x < width img" "y < height img" "c < 3"
  have "c = 0 \<or> c = 1 \<or> c = 2" using a(3) by arith
  then show "getPixel (fold invert_row [0..<height img] img) x y c = 255 - getPixel img x y c"
    using R(4) [OF _ a] by (auto simp: invert_row_def px_def chan_def)
qed

text \<open>
  C3. For every well-formed buffer \<open>B\<close>, two runs of the invert filter, neither of them
  cancelled, give back \<open>B\<close>: each channel value \<open>v\<close> becomes \<open>255 - v\<close> and then
  \<open>255 - (255 - v) = v\<close>.
\<close>

theorem applyInvert_twice:
  assumes "wf_image B"
    and "\<forall>y < height B. \<not> cancel1 y" and "\<forall>y < height B. \<not> cancel2 y"
  shows "fst (applyInvert B pre1 cancel1) = Completed \<and>
         applyInvert (snd (applyInvert B pre1 cancel1)) pre2 cancel2 = (Completed, B)"
proof -
  let ?I = "fold invert_row [0..<height B] B"
  let ?J = "fold invert_row [0..<height ?I] ?I"
  note one = invert_completed(1) [OF assms(1,2), of pre1] invert_completed(2-5) [OF assms(1,2)]
  have c2: "\<forall>y < height ?I. \<not> cancel2 y"
    using assms(3) one(3) by simp
  note two = invert_completed(1) [OF one(4) c2, of pre2] invert_completed(2-5) [OF one(4) c2]
  have "?J = B"
  proof (rule Image_eqI)
    show "wf_image ?J" by (rule two(4))
    show "wf_image B" by (rule assms(1))
    show "width ?J = width B" using two(2) one(2) by simp
    show "height ?J = height B" using two(3) one(3) by simp
    fix x y c :: nat
    assume "x < width ?J" "y < height ?J" "c < 3"
    then have a: "x < width B" "y < height B" "c < 3"
      using two(2,3) one(2,3) by simp_all
    then have "getPixel ?J x y c = 255 - getPixel ?I x y c"
      using two(5) [of x y c] one(2,3) by simp
    also have "\<dots> = 255 - (255 - getPixel B x y c)"
      using one(5) [OF a] by simp
    finally show "getPixel ?J x y c = getPixel B x y c" by simp
  qed
  then show ?thesis
    using one(1) two(1) by simp
qed

theorem applyInvert_twice_witness:
  "wf_image \<lparr>width = 1, height = 2, imageData = [0, 17, 255, 3, 128, 200]\<rparr> \<and>
   applyInvert (snd (applyInvert \<lparr>width = 1, height = 2, imageData = [0, 17, 255, 3, 128, 200]\<rparr>
                       \<lparr>width = 1, height = 2, imageData = [0, 17, 255, 3, 128, 200]\<rparr> (\<lambda>_. False)))
               \<lparr>width = 0, height = 0, imageData = []\<rparr> (\<lambda>_. False)
     = (Completed, \<lparr>width = 1, height = 2, imageData = [0, 17, 255, 3, 128, 200]\<rparr>)"
  using applyInvert_twice [where B = "\<lparr>width = 1, height = 2, imageData = [0, 17, 255, 3, 128, 200]\<rparr>"
      and ?cancel1.0 = "\<lambda>_. False" and ?cancel2.0 = "\<lambda>_. False"
      and ?pre1.0 = "\<lparr>width = 1, height = 2, imageData = [0, 17, 255, 3, 128, 200]\<rparr>"
      and ?pre2.0 = "\<lparr>width = 0, height = 0, imageData = []\<rparr>"]
  by (simp add: wf_image_def channels_def)

section \<open>Merge\<close>

lemma merge_pixel_local:
  "local_update (merge_pixel m)
     (\<lambda>x y p c. case p of (r, g, b) \<Rightarrow>
        chan (toByte ((uint r + uint (getPixel m x y 0)) div 2),
              toByte ((uint g + uint (getPixel m x y 1)) div 2),
              toByte ((uint b + uint (getPixel m x y 2)) div 2)) c)"
  unfolding local_update_def
proof (intro allI impI, elim conjE)
  fix img x y
  assume a: "wf_image img" "x < width img" "y < height img"
  let ?r = "toByte ((uint (getPixel img x y 0) + uint (getPixel m x y 0)) div 2)"
  let ?g = "toByte ((uint (getPixel img x y 1) + uint (getPixel m x y 1)) div 2)"
  let ?b = "toByte ((uint (getPixel img x y 2) + uint (getPixel m x y 2)) div 2)"
  have e: "merge_pixel m x y img = set3 img x y ?r ?g ?b"
    by (simp add: merge_pixel_def Let_def)
  note S = set3_local [OF a, where a = ?r and b = ?g and d = ?b]
  show "width (merge_pixel m x y img) = width img \<and>
        height (merge_pixel m x y img) = height img \<and>
        wf_image (merge_pixel m x y img) \<and>
        (\<forall>x' y' c'. x' < width img \<and> y' < height img \<and> c' < 3 \<longrightarrow>
           getPixel (merge_pixel m x y img) x' y' c' =
             (if x' = x \<and> y' = y
              then case px img x y of (r, g, b) \<Rightarrow>
                chan (toByte ((uint r + uint (getPixel m x y 0)) div 2),
                      toByte ((uint g + uint (getPixel m x y 1)) div 2),
                      toByte ((uint b + uint (getPixel m x y 2)) div 2)) c'
              else getPixel img x' y' c'))"
    unfolding e using S by (simp add: px_def)
qed

lemma upt_below_le: "n \<le> m \<Longrightarrow> set [0..<n] \<subseteq> {..<m}"
  by auto

text \<open>
  C10. \<open>applyMerge\<close> leaves width and height of the first buffer as they are. A pixel of the
  first buffer outside the overlap (\<open>x\<close> at or beyond the smaller width, or \<open>y\<close> at or beyond
  the smaller height) keeps its value; a pixel inside the overlap gets, per channel, the
  average \<open>(a + b) div 2\<close> of the two buffers.
\<close>

theorem applyMerge_frame:
  assumes "wf_image currentImage"
    and "x < width currentImage" "y < height currentImage" "c < 3"
  shows "width (applyMerge currentImage mergeImage) = width currentImage \<and>
         height (applyMerge currentImage mergeImage) = height currentImage \<and>
         (if x < min (width currentImage) (width mergeImage) \<and>
             y < min (height currentImage) (height mergeImage)
          then uint (getPixel (applyMerge currentImage mergeImage) x y c) =
                 (uint (getPixel currentImage x y c) + uint (getPixel mergeImage x y c)) div 2
          else getPixel (applyMerge currentImage mergeImage) x y c = getPixel currentImage x y c)"
proof -
  let ?w = "min (width currentImage) (width mergeImage)"
  let ?h = "min (height currentImage) (height mergeImage)"
  have e: "applyMerge currentImage mergeImage =
           fold (\<lambda>y. fold (\<lambda>x. merge_pixel mergeImage x y) [0..<?w]) [0..<?h] currentImage"
    by (simp add: applyMerge_def Let_def)
  have L: "width (applyMerge currentImage mergeImage) = width currentImage \<and>
           height (applyMerge currentImage mergeImage) = height currentImage \<and>
           wf_image (applyMerge currentImage mergeImage) \<and>
           (\<forall>x' y' c'. x' < width currentImage \<and> y' < height currentImage \<and> c' < 3 \<longrightarrow>
              getPixel (applyMerge currentImage mergeImage) x' y' c' =
                (if x' \<in> set [0..<?w] \<and> y' \<in> set [0..<?h]
                 then case px currentImage x' y' of (r, g, b) \<Rightarrow>
                   chan (toByte ((uint r + uint (getPixel mergeImage x' y' 0)) div 2),
                         toByte ((uint g + uint (getPixel mergeImage x' y' 1)) div 2),
                         toByte ((uint b + uint (getPixel mergeImage x' y' 2)) div 2)) c'
                 else getPixel currentImage x' y' c'))"
    unfolding e
    by (rule fold_rows_local [OF merge_pixel_local assms(1) upt_below_le distinct_upt
          upt_below_le distinct_upt]) simp_all
  have c: "c = 0 \<or> c = 1 \<or> c = 2" using assms(4) by arith
  have avg: "uint (toByte ((uint a + uint b) div 2)) = (uint a + uint b) div 2" for a b :: byte
    using uint_byte_less [of a] uint_byte_less [of b] uint_ge_0 [of a] uint_ge_0 [of b]
    by (intro uint_toByte) linarith+
  have "getPixel (applyMerge currentImage mergeImage) x y c =
          (if x < ?w \<and> y < ?h
           then toByte ((uint (getPixel currentImage x y c) + uint (getPixel mergeImage x y c)) div 2)
           else getPixel currentImage x y c)"
    using L assms(2-4) c by (auto simp: px_def chan_def)
  then show ?thesis
    using L by (simp add: avg)
qed

theorem applyMerge_frame_witness:
  "wf_image \<lparr>width = 2, height = 1, imageData = [10, 20, 30, 40, 50, 60]\<rparr> \<and>
   width (applyMerge \<lparr>width = 2, height = 1, imageData = [10, 20, 30, 40, 50, 60]\<rparr>
            \<lparr>width = 1, height = 1, imageData = [20, 21, 0]\<rparr>) = 2 \<and>
   height (applyMerge \<lparr>width = 2, height = 1, imageData = [10, 20, 30, 40, 50, 60]\<rparr>
            \<lparr>width = 1, height = 1, imageData = [20, 21, 0]\<rparr>) = 1 \<and>
   uint (getPixel (applyMerge \<lparr>width = 2, height = 1, imageData = [10, 20, 30, 40, 50, 60]\<rparr>
            \<lparr>width = 1, height = 1, imageData = [20, 21, 0]\<rparr>) 0 0 1) = 20 \<and>
   getPixel (applyMerge \<lparr>width = 2, height = 1, imageData = [10, 20, 30, 40, 50, 60]\<rparr>
            \<lparr>width = 1, height = 1, imageData = [20, 21, 0]\<rparr>) 1 0 1 = 50"
  using applyMerge_frame [of "\<lparr>width = 2, height = 1, imageData = [10, 20, 30, 40, 50, 60]\<rparr>" 0 0 1
      "\<lparr>width = 1, height = 1, imageData = [20, 21, 0]\<rparr>"]
    applyMerge_frame [of "\<lparr>width = 2, height = 1, imageData = [10, 20, 30, 40, 50, 60]\<rparr>" 1 0 1
      "\<lparr>width = 1, height = 1, imageData = [20, 21, 0]\<rparr>"]
  by (simp add: wf_image_def channels_def getPixel_def idx_def)

section \<open>Faults of the loops\<close>

lemma foldE_Inr:
  assumes "\<And>x s. f x s = Inr (g x s)"
  shows "foldE f xs s = Inr (fold g xs s)"
  by (induction xs arbitrary: s) (simp_all add: assms)

lemma foldE_total:
  assumes "\<And>x s. \<exists>s'. f x s = Inr s'"
  shows "\<exists>s'. foldE f xs s = Inr s'"
proof (induction xs arbitrary: s)
  case Nil
  then show ?case by simp
next
  case (Cons x xs)
  obtain s1 where "f x s = Inr s1" using assms by blast
  then show ?case using Cons.IH [of s1] by simp
qed

lemma foldE_total_on:
  "(\<And>x s. x \<in> set xs \<Longrightarrow> \<exists>s'. f x s = Inr s') \<Longrightarrow> \<exists>s'. foldE f xs s = Inr s'"
proof (induction xs arbitrary: s)
  case Nil
  then show ?case by simp
next
  case (Cons x xs)
  obtain s1 where s1: "f x s = Inr s1" using Cons.prems [of x s] by auto
  have "\<exists>s'. foldE f xs s1 = Inr s'"
    by (rule Cons.IH) (rule Cons.prems, simp)
  then show ?case using s1 by simp
qed

text \<open>
  A loop whose body keeps an invariant \<open>I\<close>, indexed by a counter that grows by \<open>d\<close> with
  every iteration and has room up to \<open>M\<close>.
\<close>

lemma foldE_counted:
  "(\<And>x t m. x \<in> set xs \<Longrightarrow> I m t \<Longrightarrow> m + d \<le> M \<Longrightarrow> \<exists>s'. f x t = Inr s' \<and> I (m + d) s') \<Longrightarrow>
   I n s \<Longrightarrow> n + d * length xs \<le> M \<Longrightarrow>
   \<exists>s'. foldE f xs s = Inr s' \<and> I (n + d * length xs) s'"
proof (induction xs arbitrary: n s)
  case Nil
  then show ?case by simp
next
  case (Cons x xs)
  have nd: "n + d \<le> M" using Cons.prems(3) by simp
  have "\<exists>s'. f x s = Inr s' \<and> I (n + d) s'"
    by (rule Cons.prems(1)) (simp_all add: Cons.prems(2) nd)
  then obtain s1 where s1: "f x s = Inr s1" "I (n + d) s1" by blast
  have rest: "n + d + d * length xs \<le> M" using Cons.prems(3) by simp
  have "\<exists>s'. foldE f xs s1 = Inr s' \<and> I (n + d + d * length xs) s'"
  proof (rule Cons.IH [OF _ s1(2) rest])
    fix x' t m
    assume a: "x' \<in> set xs" "I m t" "m + d \<le> M"
    show "\<exists>s'. f x' t = Inr s' \<and> I (m + d) s'"
      by (rule Cons.prems(1)) (simp_all add: a)
  qed
  then show ?case using s1(1) by (simp add: add.assoc)
qed

lemma foldE_no_div0:
  "(\<And>x s. f x s \<noteq> Inl DivisionByZero) \<Longrightarrow> foldE f xs s \<noteq> Inl DivisionByZero"
proof (induction xs arbitrary: s)
  case Nil
  then show ?case by simp
next
  case (Cons x xs)
  show ?case
  proof (cases "f x s")
    case (Inl e)
    then show ?thesis using Cons.prems [of x s] by simp
  next
    case (Inr s1)
    have "foldE f xs s1 \<noteq> Inl DivisionByZero"
      by (rule Cons.IH) (rule Cons.prems)
    then show ?thesis using Inr by simp
  qed
qed

lemma cancelable_loopE_Inr:
  assumes "\<And>y s. step y s = Inr (g y s)"
  shows "cancelable_loopE cancel step ys s = Inr (cancelable_loop cancel g ys s)"
  by (induction ys arbitrary: s) (simp_all add: assms)

lemma cancelable_loopE_total_on:
  "(\<And>y s. y \<in> set ys \<Longrightarrow> \<exists>s'. step y s = Inr s') \<Longrightarrow>
   \<exists>r. cancelable_loopE cancel step ys s = Inr r"
proof (induction ys arbitrary: s)
  case Nil
  then show ?case by simp
next
  case (Cons y ys)
  obtain s1 where s1: "step y s = Inr s1" using Cons.prems [of y s] by auto
  have "\<exists>r. cancelable_loopE cancel step ys s1 = Inr r"
    by (rule Cons.IH) (rule Cons.prems, simp)
  then show ?case using s1 by simp
qed

lemma cancelable_loopE_cancelled_on:
  "(\<And>y s. y \<in> set ys \<Longrightarrow> \<exists>s'. step y s = Inr s') \<Longrightarrow> \<exists>y \<in> set ys. cancel y \<Longrightarrow>
   \<exists>y s'. cancelable_loopE cancel step ys s = Inr (Inl (y, s')) \<and> cancel y"
proof (induction ys arbitrary: s)
  case Nil
  then show ?case by simp
next
  case (Cons y ys)
  show ?case
  proof (cases "cancel y")
    case True
    then show ?thesis by simp
  next
    case False
    obtain s1 where s1: "step y s = Inr s1" using Cons.prems(1) [of y s] by auto
    have c: "\<exists>y \<in> set ys. cancel y" using False Cons.prems(2) by simp
    have "\<exists>y' s'. cancelable_loopE cancel step ys s1 = Inr (Inl (y', s')) \<and> cancel y'"
      by (rule Cons.IH [OF _ c]) (rule Cons.prems(1), simp)
    then show ?thesis using False s1 by simp
  qed
qed

text \<open>
  Whatever the body does: when one of the polls would find the flag set, the loop does not run
  to its end. It leaves at a poll, or a fault stops it before.
\<close>

lemma cancelable_loopE_cancelled_or_fault:
  "\<exists>y \<in> set ys. cancel y \<Longrightarrow>
   (\<exists>e. cancelable_loopE cancel step ys s = Inl e) \<or>
   (\<exists>y s'. cancelable_loopE cancel step ys s = Inr (Inl (y, s')) \<and> cancel y)"
proof (induction ys arbitrary: s)
  case Nil
  then show ?case by simp
next
  case (Cons y ys)
  show ?case
  proof (cases "cancel y")
    case True
    then show ?thesis by simp
  next
    case False
    then have c: "\<exists>y \<in> set ys. cancel y" using Cons.prems by simp
    show ?thesis
    proof (cases "step y s")
      case (Inl e)
      then show ?thesis using False by simp
    next
      case (Inr s1)
      then show ?thesis using False Cons.IH [OF c, of s1] by simp
    qed
  qed
qed

lemma cancelable_loopE_no_div0:
  "(\<And>y s. step y s \<noteq> Inl DivisionByZero) \<Longrightarrow>
   cancelable_loopE cancel step ys s \<noteq> Inl DivisionByZero"
proof (induction ys arbitrary: s)
  case Nil
  then show ?case by simp
next
  case (Cons y ys)
  show ?case
  proof (cases "step y s")
    case (Inl e)
    then show ?thesis using Cons.prems [of y s] by simp
  next
    case (Inr s1)
    have "cancelable_loopE cancel step ys s1 \<noteq> Inl DivisionByZero"
      by (rule Cons.IH) (rule Cons.prems)
    then show ?thesis using Inr by simp
  qed
qed

lemma c_div_floor: "c_div a (max 1 b) = Inr (a div max 1 b)"
  by (simp add: c_div_def)

lemma bindE_Inr [simp]: "bindE (Inr v) f = f v"
  by (simp add: bindE_def)

lemma bindE_Inl [simp]: "bindE (Inl e) f = Inl e"
  by (simp add: bindE_def)

lemma bindE_no_div0:
  "m \<noteq> Inl DivisionByZero \<Longrightarrow> (\<And>v. f v \<noteq> Inl DivisionByZero) \<Longrightarrow> bindE m f \<noteq> Inl DivisionByZero"
  by (cases m) simp_all

lemma c_add_no_div0: "c_add a b \<noteq> Inl DivisionByZero"
  by (simp add: c_add_def)

lemma c_add_Inr: "- INT_MAX - 1 \<le> a + b \<Longrightarrow> a + b \<le> INT_MAX \<Longrightarrow> c_add a b = Inr (a + b)"
  by (simp add: c_add_def)

lemma c_div_floor_no_div0: "c_div a (max 1 b) \<noteq> Inl DivisionByZero"
  by (simp add: c_div_floor)

lemma Inr_no_div0: "Inr v \<noteq> Inl DivisionByZero"
  by simp

lemma if_no_div0:
  "a \<noteq> Inl DivisionByZero \<Longrightarrow> b \<noteq> Inl DivisionByZero \<Longrightarrow> (if c then a else b) \<noteq> Inl DivisionByZero"
  by simp

lemma if_Inr_total: "\<exists>h'. (if c then Inr a else Inr b) = Inr h'"
  by simp

subsection \<open>Blur\<close>

lemma blur_pixel_Inr:
  "blur_pixel currentImage blurSize x y result =
     Inr (case blur_sums currentImage blurSize x y of (R, G, B, count) \<Rightarrow>
            set3 result x y (toByte (R div max 1 count)) (toByte (G div max 1 count))
              (toByte (B div max 1 count)))"
proof -
  obtain R G B n where s: "blur_sums currentImage blurSize x y = (R, G, B, n)"
    by (cases "blur_sums currentImage blurSize x y") auto
  show ?thesis
    unfolding blur_pixel_def s prod.case c_div_floor bindE_Inr ..
qed

lemma blur_row_total: "\<exists>s'. blur_row currentImage blurSize y result = Inr s'"
  unfolding blur_row_def by (rule foldE_total) (simp add: blur_pixel_Inr)

lemma applyBlur_total: "\<exists>r. applyBlur currentImage preFilterImage cancel strength = Inr r"
proof -
  obtain r where "cancelable_loopE cancel (blur_row currentImage (blurSize_of strength))
      [0..<height currentImage] (newImage (width currentImage) (height currentImage)) = Inr r"
    using cancelable_loopE_total_on [of "[0..<height currentImage]"
        "blur_row currentImage (blurSize_of strength)"] blur_row_total
    by blast
  then show ?thesis
    by (cases r) (auto simp: applyBlur_def)
qed

subsection \<open>Double vision\<close>

lemma doublevision_pixel_total:
  assumes "0 \<le> offset" "int (width cur) + offset \<le> 2 ^ 31" "x < width cur" "y < height cur"
  shows "\<exists>out'. doublevision_pixel cur offset x y out = Inr out'"
proof -
  have a: "c_add (int x) offset = Inr (int x + offset)"
    using assms(1-3) by (intro c_add_Inr) (simp_all add: INT_MAX_def)
  define nx where "nx = (if int (width cur) \<le> int x + offset then int (width cur) - 1 else int x + offset)"
  have r: "0 \<le> nx" "nx < int (width cur)"
    using assms(1,3) by (auto simp: nx_def)
  have g: "getPixelAt cur nx (int y) 0 = Inr (getPixel cur (nat nx) y 0)"
    "getPixelAt cur nx (int y) 1 = Inr (getPixel cur (nat nx) y 1)"
    "getPixelAt cur nx (int y) 2 = Inr (getPixel cur (nat nx) y 2)"
    using r assms(4) by (simp_all add: getPixelAt_def channels_def)
  show ?thesis
    unfolding doublevision_pixel_def a bindE_Inr Let_def nx_def [symmetric] g by blast
qed

lemma doublevision_pixel_overflow:
  assumes "INT_MAX < int x + offset"
  shows "doublevision_pixel cur offset x y out = Inl Overflow"
proof -
  have a: "c_add (int x) offset = Inl Overflow"
    using assms by (simp add: c_add_def)
  show ?thesis
    by (simp only: doublevision_pixel_def a bindE_Inl)
qed

lemma doublevision_row_total:
  assumes "0 \<le> offset" "int (width cur) + offset \<le> 2 ^ 31" "y < height cur"
  shows "\<exists>out'. doublevision_row cur offset y out = Inr out'"
  unfolding doublevision_row_def
proof (rule foldE_total_on)
  fix x s
  assume "x \<in> set [0..<width cur]"
  then have "x < width cur" by simp
  then show "\<exists>s'. doublevision_pixel cur offset x y s = Inr s'"
    by (rule doublevision_pixel_total [OF assms(1,2) _ assms(3)])
qed

subsection \<open>Oil painting\<close>

lemma hist_bounded_zero:
  "hist_bounded 0 (replicate 256 0, replicate 256 0, replicate 256 0, replicate 256 0)"
  by (simp add: hist_bounded_def)

lemma hist_bounded_Suc: "hist_bounded n h \<Longrightarrow> hist_bounded (Suc n) h"
  by (cases h) (fastforce simp: hist_bounded_def)

lemma oil_count_step:
  assumes hb: "hist_bounded n hist" and M: "255 * (int n + 1) \<le> INT_MAX"
    and lv: "level < 256"
    and c: "0 \<le> r" "r \<le> 255" "0 \<le> g" "g \<le> 255" "0 \<le> b" "b \<le> 255"
  shows "\<exists>h'. oil_count hist level r g b = Inr h' \<and> hist_bounded (Suc n) h'"
proof -
  obtain cc rs gs bs where h: "hist = (cc, rs, gs, bs)" by (cases hist) auto
  have len: "length cc = 256" "length rs = 256" "length gs = 256" "length bs = 256"
    using hb by (simp_all add: hist_bounded_def h)
  have all: "0 \<le> cc ! k \<and> cc ! k \<le> int n \<and> 0 \<le> rs ! k \<and> rs ! k \<le> 255 * int n \<and>
             0 \<le> gs ! k \<and> gs ! k \<le> 255 * int n \<and> 0 \<le> bs ! k \<and> bs ! k \<le> 255 * int n"
    if "k < 256" for k
    using hb that by (simp add: hist_bounded_def h)
  note at = all [OF lv]
  have m: "0 \<le> INT_MAX" "0 \<le> int n" by (simp_all add: INT_MAX_def)
  have a1: "c_add (cc ! level) 1 = Inr (cc ! level + 1)"
    using at M m by (intro c_add_Inr) (simp_all add: distrib_left)
  have a2: "c_add (rs ! level) r = Inr (rs ! level + r)"
    using at c M m by (intro c_add_Inr) (simp_all add: distrib_left)
  have a3: "c_add (gs ! level) g = Inr (gs ! level + g)"
    using at c M m by (intro c_add_Inr) (simp_all add: distrib_left)
  have a4: "c_add (bs ! level) b = Inr (bs ! level + b)"
    using at c M m by (intro c_add_Inr) (simp_all add: distrib_left)
  note a = a1 a2 a3 a4
  have e: "oil_count hist level r g b =
           Inr (cc[level := cc ! level + 1], rs[level := rs ! level + r],
                gs[level := gs ! level + g], bs[level := bs ! level + b])"
    unfolding oil_count_def h prod.case a bindE_Inr ..
  have "hist_bounded (Suc n) (cc[level := cc ! level + 1], rs[level := rs ! level + r],
                gs[level := gs ! level + g], bs[level := bs ! level + b])"
    unfolding hist_bounded_def prod.case
  proof (intro conjI allI impI)
    fix k :: nat
    assume k: "k < 256"
    note ak = all [OF k]
    show "0 \<le> cc[level := cc ! level + 1] ! k" "cc[level := cc ! level + 1] ! k \<le> int (Suc n)"
      "0 \<le> rs[level := rs ! level + r] ! k" "rs[level := rs ! level + r] ! k \<le> 255 * int (Suc n)"
      "0 \<le> gs[level := gs ! level + g] ! k" "gs[level := gs ! level + g] ! k \<le> 255 * int (Suc n)"
      "0 \<le> bs[level := bs ! level + b] ! k" "bs[level := bs ! level + b] ! k \<le> 255 * int (Suc n)"
      using ak at c k lv len by (simp_all add: nth_list_update)
  qed (simp_all add: len)
  with e show ?thesis by blast
qed

lemma oil_accum_step:
  assumes hb: "hist_bounded n hist" and M: "255 * (int n + 1) \<le> INT_MAX"
    and x: "- INT_MAX - 1 \<le> int i + dx" "int i + dx \<le> INT_MAX"
    and y: "- INT_MAX - 1 \<le> int j + dy" "int j + dy \<le> INT_MAX"
  shows "\<exists>h'. oil_accum cur intensity i j dy dx hist = Inr h' \<and> hist_bounded (Suc n) h'"
proof (cases "in_image cur (int i + dx) (int j + dy)")
  case False
  then have "oil_accum cur intensity i j dy dx hist = Inr hist"
    unfolding oil_accum_def c_add_Inr [OF x] c_add_Inr [OF y] bindE_Inr by simp
  then show ?thesis using hist_bounded_Suc [OF hb] by blast
next
  case True
  define r where "r = uint (getPixel cur (nat (int i + dx)) (nat (int j + dy)) 0)"
  define g where "g = uint (getPixel cur (nat (int i + dx)) (nat (int j + dy)) 1)"
  define b where "b = uint (getPixel cur (nat (int i + dx)) (nat (int j + dy)) 2)"
  define level where "level = nat (min 255 (max 0 ((r + g + b) div 3 div max 1 intensity)))"
  have c: "0 \<le> r" "r \<le> 255" "0 \<le> g" "g \<le> 255" "0 \<le> b" "b \<le> 255"
    using uint_byte_less [of "getPixel cur (nat (int i + dx)) (nat (int j + dy)) 0"]
      uint_byte_less [of "getPixel cur (nat (int i + dx)) (nat (int j + dy)) 1"]
      uint_byte_less [of "getPixel cur (nat (int i + dx)) (nat (int j + dy)) 2"]
    by (simp_all add: r_def g_def b_def)
  have lv: "level < 256" by (simp add: level_def)
  have e: "oil_accum cur intensity i j dy dx hist = oil_count hist level r g b"
    unfolding oil_accum_def c_add_Inr [OF x] c_add_Inr [OF y] bindE_Inr if_P [OF True] Let_def
      c_div_floor r_def [symmetric] g_def [symmetric] b_def [symmetric] level_def [symmetric] ..
  show ?thesis
    unfolding e by (rule oil_count_step [OF hb M lv c])
qed

lemma oil_window_room:
  assumes "1 \<le> radius" "radius \<le> 1450"
  shows "255 * int (length [- radius..radius] * length [- radius..radius]) \<le> INT_MAX"
proof -
  define L where "L = length [- radius..radius]"
  have l: "L \<le> 2901" using assms by (simp add: L_def)
  have "L * L \<le> 2901 * 2901"
    by (rule mult_le_mono [OF l l])
  then have "L * L \<le> 8415801" by simp
  then have "int (L * L) \<le> 8415801" by linarith
  then have "255 * int (L * L) \<le> INT_MAX" by (simp add: INT_MAX_def)
  then show ?thesis by (simp only: L_def)
qed

lemma oil_histogram_total:
  assumes r: "1 \<le> radius" "radius \<le> 1450"
    and i: "int i + radius \<le> INT_MAX" and j: "int j + radius \<le> INT_MAX"
  shows "\<exists>h. oil_histogram cur radius intensity i j = Inr h"
proof -
  let ?ds = "[- radius..radius]"
  define L where "L = length ?ds"
  define M where "M = L * L"
  have room: "255 * int M \<le> INT_MAX"
    unfolding M_def L_def by (rule oil_window_room [OF r])
  have o: "c_offsets radius = Inr ?ds"
    using r by (simp add: c_offsets_def INT_MAX_def)
  have m: "radius \<le> INT_MAX" using r by (simp add: INT_MAX_def)
  have inner: "\<exists>s'. foldE (\<lambda>dx. oil_accum cur intensity i j dy dx) ?ds t = Inr s' \<and>
                    hist_bounded (n + L) s'"
    if dy: "dy \<in> set ?ds" and t: "hist_bounded n t" and n: "n + L \<le> M" for dy t n
  proof -
    have "\<exists>s'. foldE (\<lambda>dx. oil_accum cur intensity i j dy dx) ?ds t = Inr s' \<and>
                hist_bounded (n + 1 * length ?ds) s'"
    proof (rule foldE_counted [where M = M and d = 1 and I = hist_bounded, OF _ t])
      show "n + 1 * length ?ds \<le> M" using n by (simp add: L_def)
      fix dx u k
      assume dx: "dx \<in> set ?ds" and u: "hist_bounded k u" and k: "k + 1 \<le> M"
      have "int k + 1 \<le> int M" using k by linarith
      then have M: "255 * (int k + 1) \<le> INT_MAX" using room by (simp add: distrib_left)
      have x: "- INT_MAX - 1 \<le> int i + dx" "int i + dx \<le> INT_MAX"
        using dx i m by simp_all
      have y: "- INT_MAX - 1 \<le> int j + dy" "int j + dy \<le> INT_MAX"
        using dy j m by simp_all
      show "\<exists>s'. oil_accum cur intensity i j dy dx u = Inr s' \<and> hist_bounded (k + 1) s'"
        using oil_accum_step [OF u M x y] by simp
    qed
    then show ?thesis by (simp add: L_def)
  qed
  have "\<exists>s'. foldE (\<lambda>dy. foldE (\<lambda>dx. oil_accum cur intensity i j dy dx) ?ds) ?ds
                (replicate 256 0, replicate 256 0, replicate 256 0, replicate 256 0) = Inr s' \<and>
              hist_bounded (0 + L * length ?ds) s'"
    by (rule foldE_counted [where M = M and d = L and I = hist_bounded, OF inner hist_bounded_zero])
      (simp_all add: M_def L_def)
  then show ?thesis
    unfolding oil_histogram_def o bindE_Inr by blast
qed

lemma oil_histogram_overflow:
  assumes "INT_MAX \<le> radius"
  shows "oil_histogram cur radius intensity i j = Inl Overflow"
proof -
  have a: "c_offsets radius = Inl Overflow"
    using assms by (simp add: c_offsets_def)
  show ?thesis
    by (simp only: oil_histogram_def a bindE_Inl)
qed

lemma c_div_denom: "c_div a (oil_denom cc m) = Inr (a div oil_denom cc m)"
  by (simp add: c_div_def oil_denom_def)

lemma oil_pixel_means:
  "oil_pixel cur radius intensity i j result =
     bindE (oil_histogram cur radius intensity i j) (\<lambda>hist.
       case hist of (colorCount, redSum, greenSum, blueSum) \<Rightarrow>
         Inr (set3 result i j
                (toByte (redSum ! snd (oil_max colorCount)
                           div oil_denom colorCount (snd (oil_max colorCount))))
                (toByte (greenSum ! snd (oil_max colorCount)
                           div oil_denom colorCount (snd (oil_max colorCount))))
                (toByte (blueSum ! snd (oil_max colorCount)
                           div oil_denom colorCount (snd (oil_max colorCount))))))"
proof (cases "oil_histogram cur radius intensity i j")
  case (Inl e)
  then show ?thesis unfolding oil_pixel_def by simp
next
  case (Inr h)
  obtain cc rs gs bs where t: "h = (cc, rs, gs, bs)" by (cases h) auto
  show ?thesis
    unfolding oil_pixel_def Inr t bindE_Inr prod.case Let_def c_div_denom ..
qed

lemma oil_pixel_total:
  assumes "1 \<le> radius" "radius \<le> 1450"
    and "int i + radius \<le> INT_MAX" and "int j + radius \<le> INT_MAX"
  shows "\<exists>r. oil_pixel cur radius intensity i j result = Inr r"
proof -
  obtain h where h: "oil_histogram cur radius intensity i j = Inr h"
    using oil_histogram_total [OF assms] by blast
  obtain cc rs gs bs where t: "h = (cc, rs, gs, bs)" by (cases h) auto
  show ?thesis
    unfolding oil_pixel_means h t bindE_Inr prod.case by blast
qed

lemma oil_in_range:
  assumes "int w + radius \<le> 2 ^ 31" "i < w"
  shows "int i + radius \<le> INT_MAX"
  using assms by (simp add: INT_MAX_def)

lemma oil_row_total:
  assumes r: "1 \<le> radius" "radius \<le> 1450"
    and w: "int (width cur) + radius \<le> 2 ^ 31" and h: "int (height cur) + radius \<le> 2 ^ 31"
    and j: "j < height cur"
  shows "\<exists>s'. oil_row cur radius intensity j result = Inr s'"
  unfolding oil_row_def
proof (rule foldE_total_on)
  fix i s
  assume "i \<in> set [0..<width cur]"
  then have i: "i < width cur" by simp
  show "\<exists>s'. oil_pixel cur radius intensity i j s = Inr s'"
    by (rule oil_pixel_total [OF r oil_in_range [OF w i] oil_in_range [OF h j]])
qed

lemma oil_count_no_div0: "oil_count hist level r g b \<noteq> Inl DivisionByZero"
proof -
  obtain cc rs gs bs where h: "hist = (cc, rs, gs, bs)" by (cases hist) auto
  show ?thesis
    unfolding oil_count_def h prod.case
    by (intro bindE_no_div0 c_add_no_div0 Inr_no_div0)
qed

lemma oil_accum_no_div0: "oil_accum cur intensity i j dy dx hist \<noteq> Inl DivisionByZero"
  unfolding oil_accum_def Let_def
  by (intro bindE_no_div0 c_add_no_div0 if_no_div0 c_div_floor_no_div0 oil_count_no_div0 Inr_no_div0)

lemma oil_histogram_no_div0: "oil_histogram cur radius intensity i j \<noteq> Inl DivisionByZero"
  unfolding oil_histogram_def
proof (rule bindE_no_div0)
  show "c_offsets radius \<noteq> Inl DivisionByZero"
    by (simp add: c_offsets_def)
  fix ds
  show "foldE (\<lambda>dy. foldE (\<lambda>dx. oil_accum cur intensity i j dy dx) ds) ds
          (replicate 256 0, replicate 256 0, replicate 256 0, replicate 256 0) \<noteq> Inl DivisionByZero"
    by (intro foldE_no_div0 oil_accum_no_div0)
qed

lemma oil_pixel_no_div0: "oil_pixel cur radius intensity i j result \<noteq> Inl DivisionByZero"
  unfolding oil_pixel_means
proof (rule bindE_no_div0 [OF oil_histogram_no_div0])
  fix hist :: histogram
  obtain cc rs gs bs where t: "hist = (cc, rs, gs, bs)" by (cases hist) auto
  show "(case hist of (colorCount, redSum, greenSum, blueSum) \<Rightarrow>
          Inr (set3 result i j
                (toByte (redSum ! snd (oil_max colorCount)
                           div oil_denom colorCount (snd (oil_max colorCount))))
                (toByte (greenSum ! snd (oil_max colorCount)
                           div oil_denom colorCount (snd (oil_max colorCount))))
                (toByte (blueSum ! snd (oil_max colorCount)
                           div oil_denom colorCount (snd (oil_max colorCount))))))
        \<noteq> Inl DivisionByZero"
    unfolding t prod.case by (rule Inr_no_div0)
qed

lemma applyOilPainting_no_div0: "applyOilPainting cur radius0 intensity0 \<noteq> Inl DivisionByZero"
  unfolding applyOilPainting_def Let_def
  by (intro foldE_no_div0 oil_pixel_no_div0)

lemma applyOilPainting_cancelable_no_div0:
  "applyOilPainting_cancelable cur pre cancel radius0 intensity0 \<noteq> Inl DivisionByZero"
proof -
  let ?loop = "cancelable_loopE cancel (oil_row cur (max 1 radius0) (max 1 (min 255 intensity0)))
      [0..<height cur] (newImage (width cur) (height cur))"
  have l: "?loop \<noteq> Inl DivisionByZero"
    unfolding oil_row_def
    by (intro cancelable_loopE_no_div0 foldE_no_div0 oil_pixel_no_div0)
  show ?thesis
  proof (cases ?loop)
    case (Inl e)
    then show ?thesis using l by (simp add: applyOilPainting_cancelable_def Let_def)
  next
    case (Inr r)
    then show ?thesis
      by (cases r) (auto simp: applyOilPainting_cancelable_def Let_def)
  qed
qed

lemma applyOilPainting_total:
  assumes r: "radius0 \<le> 1450"
    and w: "int (width cur) + max 1 radius0 \<le> 2 ^ 31"
    and h: "int (height cur) + max 1 radius0 \<le> 2 ^ 31"
  shows "\<exists>out. applyOilPainting cur radius0 intensity0 = Inr out"
  unfolding applyOilPainting_def Let_def
proof (rule foldE_total_on)
  fix i s
  assume "i \<in> set [0..<width cur]"
  then have i: "i < width cur" by simp
  have r1: "1 \<le> max 1 radius0" "max 1 radius0 \<le> 1450" using r by simp_all
  show "\<exists>s'. foldE (\<lambda>j. oil_pixel cur (max 1 radius0) (max 1 (min 255 intensity0)) i j)
               [0..<height cur] s = Inr s'"
  proof (rule foldE_total_on)
    fix j t
    assume "j \<in> set [0..<height cur]"
    then have j: "j < height cur" by simp
    show "\<exists>s'. oil_pixel cur (max 1 radius0) (max 1 (min 255 intensity0)) i j t = Inr s'"
      by (rule oil_pixel_total [OF r1 oil_in_range [OF w i] oil_in_range [OF h j]])
  qed
qed

lemma applyOilPainting_cancelable_total:
  assumes r: "radius0 \<le> 1450"
    and w: "int (width cur) + max 1 radius0 \<le> 2 ^ 31"
    and h: "int (height cur) + max 1 radius0 \<le> 2 ^ 31"
  shows "\<exists>res. applyOilPainting_cancelable cur pre cancel radius0 intensity0 = Inr res"
proof -
  have r1: "1 \<le> max 1 radius0" "max 1 radius0 \<le> 1450" using r by simp_all
  have "\<exists>res. cancelable_loopE cancel (oil_row cur (max 1 radius0) (max 1 (min 255 intensity0)))
      [0..<height cur] (newImage (width cur) (height cur)) = Inr res"
  proof (rule cancelable_loopE_total_on)
    fix j s
    assume "j \<in> set [0..<height cur]"
    then have j: "j < height cur" by simp
    show "\<exists>s'. oil_row cur (max 1 radius0) (max 1 (min 255 intensity0)) j s = Inr s'"
      by (rule oil_row_total [OF r1 w h j])
  qed
  then obtain res where "cancelable_loopE cancel
      (oil_row cur (max 1 radius0) (max 1 (min 255 intensity0)))
      [0..<height cur] (newImage (width cur) (height cur)) = Inr res" by blast
  then show ?thesis
    by (cases res) (auto simp: applyOilPainting_cancelable_def Let_def)
qed

lemma applyBlur_no_div0: "applyBlur cur pre cancel strength \<noteq> Inl DivisionByZero"
  using applyBlur_total [of cur pre cancel strength] by auto

lemma oil_denom_floor: "1 \<le> oil_denom colorCount maxLevel"
  by (simp add: oil_denom_def)

text \<open>
  C8. The divisors of the two neighbourhood means are floored at 1. In the blur, the pixel step
  divides the three sums by \<open>max 1 count\<close>, \<open>count\<close> being the number of in-bounds samples
  that the window loop has counted, and it succeeds at every position and for every window
  size, also where the window holds no sample at all and \<open>count\<close> is 0. In oil painting, the
  pixel step divides the three sums of the fullest bucket by \<open>oil_denom\<close>, which is
  \<open>max 1\<close> of that bucket's count and so at least 1, and it succeeds whenever the histogram
  loop has (the level of a sample is its mean divided by \<open>max 1 intensity\<close>). So no run of
  the blur or of either form of oil painting ends in a division by zero, for any buffer, token
  and parameter value; the one fault oil painting can end in is an overflow of its
  \<^verbatim>\<open>int\<close> arithmetic, which is excluded when the radius is at most 1450 and
  \<open>width + radius\<close> and \<open>height + radius\<close> are at most \<open>2^31\<close>: then both forms return
  a result.
\<close>

theorem averaging_never_faults:
  "blur_pixel cur blurSize x y result =
     Inr (case blur_sums cur blurSize x y of (R, G, B, count) \<Rightarrow>
            set3 result x y (toByte (R div max 1 count)) (toByte (G div max 1 count))
              (toByte (B div max 1 count))) \<and>
   oil_pixel cur radius intensity i j result =
     bindE (oil_histogram cur radius intensity i j) (\<lambda>hist.
       case hist of (colorCount, redSum, greenSum, blueSum) \<Rightarrow>
         Inr (set3 result i j
                (toByte (redSum ! snd (oil_max colorCount)
                           div oil_denom colorCount (snd (oil_max colorCount))))
                (toByte (greenSum ! snd (oil_max colorCount)
                           div oil_denom colorCount (snd (oil_max colorCount))))
                (toByte (blueSum ! snd (oil_max colorCount)
                           div oil_denom colorCount (snd (oil_max colorCount)))))) \<and>
   oil_denom cc maxLevel = max 1 (cc ! maxLevel) \<and> 1 \<le> oil_denom cc maxLevel \<and>
   oil_histogram cur radius intensity i j \<noteq> Inl DivisionByZero \<and>
   applyBlur cur pre cancel strength \<noteq> Inl DivisionByZero \<and>
   applyOilPainting cur radius0 intensity0 \<noteq> Inl DivisionByZero \<and>
   applyOilPainting_cancelable cur pre cancel radius0 intensity0 \<noteq> Inl DivisionByZero \<and>
   (radius0 \<le> 1450 \<and> int (width cur) + max 1 radius0 \<le> 2 ^ 31 \<and>
    int (height cur) + max 1 radius0 \<le> 2 ^ 31 \<longrightarrow>
      (\<exists>out. applyOilPainting cur radius0 intensity0 = Inr out) \<and>
      (\<exists>res. applyOilPainting_cancelable cur pre cancel radius0 intensity0 = Inr res))"
proof (intro conjI impI)
  show "blur_pixel cur blurSize x y result =
     Inr (case blur_sums cur blurSize x y of (R, G, B, count) \<Rightarrow>
            set3 result x y (toByte (R div max 1 count)) (toByte (G div max 1 count))
              (toByte (B div max 1 count)))"
    by (rule blur_pixel_Inr)
  show "oil_pixel cur radius intensity i j result =
     bindE (oil_histogram cur radius intensity i j) (\<lambda>hist.
       case hist of (colorCount, redSum, greenSum, blueSum) \<Rightarrow>
         Inr (set3 result i j
                (toByte (redSum ! snd (oil_max colorCount)
                           div oil_denom colorCount (snd (oil_max colorCount))))
                (toByte (greenSum ! snd (oil_max colorCount)
                           div oil_denom colorCount (snd (oil_max colorCount))))
                (toByte (blueSum ! snd (oil_max colorCount)
                           div oil_denom colorCount (snd (oil_max colorCount))))))"
    by (rule oil_pixel_means)
  show "oil_denom cc maxLevel = max 1 (cc ! maxLevel)"
    by (rule oil_denom_def)
  show "1 \<le> oil_denom cc maxLevel"
    by (rule oil_denom_floor)
  show "oil_histogram cur radius intensity i j \<noteq> Inl DivisionByZero"
    by (rule oil_histogram_no_div0)
  show "applyBlur cur pre cancel strength \<noteq> Inl DivisionByZero"
    by (rule applyBlur_no_div0)
  show "applyOilPainting cur radius0 intensity0 \<noteq> Inl DivisionByZero"
    by (rule applyOilPainting_no_div0)
  show "applyOilPainting_cancelable cur pre cancel radius0 intensity0 \<noteq> Inl DivisionByZero"
    by (rule applyOilPainting_cancelable_no_div0)
next
  assume a: "radius0 \<le> 1450 \<and> int (width cur) + max 1 radius0 \<le> 2 ^ 31 \<and>
             int (height cur) + max 1 radius0 \<le> 2 ^ 31"
  show "\<exists>out. applyOilPainting cur radius0 intensity0 = Inr out"
    by (rule applyOilPainting_total) (use a in simp_all)
  show "\<exists>res. applyOilPainting_cancelable cur pre cancel radius0 intensity0 = Inr res"
    by (rule applyOilPainting_cancelable_total) (use a in simp_all)
qed

theorem averaging_never_faults_witness:
  "blur_sums \<lparr>width = 1, height = 1, imageData = [10, 20, 30]\<rparr> 1 5 5 = (0, 0, 0, 0) \<and>
   blur_pixel \<lparr>width = 1, height = 1, imageData = [10, 20, 30]\<rparr> 1 5 5 (newImage 1 1)
     = Inr (set3 (newImage 1 1) 5 5 0 0 0) \<and>
   (3 :: int) \<le> 1450 \<and>
   int (width \<lparr>width = 1, height = 1, imageData = [10, 20, 30]\<rparr>) + max 1 3 \<le> 2 ^ 31 \<and>
   int (height \<lparr>width = 1, height = 1, imageData = [10, 20, 30]\<rparr>) + max 1 3 \<le> 2 ^ 31 \<and>
   (\<exists>out. applyOilPainting \<lparr>width = 1, height = 1, imageData = [10, 20, 30]\<rparr> 3 30 = Inr out) \<and>
   (\<exists>res. applyOilPainting_cancelable \<lparr>width = 1, height = 1, imageData = [10, 20, 30]\<rparr>
             \<lparr>width = 1, height = 1, imageData = [10, 20, 30]\<rparr> (\<lambda>k. False) 3 30 = Inr res)"
proof -
  let ?I = "\<lparr>width = 1, height = 1, imageData = [10, 20, 30]\<rparr>"
  have s: "blur_sums ?I 1 5 5 = (0, 0, 0, 0)"
    by (simp add: blur_sums_def blur_accum_def in_image_def upto.simps)
  have z: "toByte (0 div max 1 0) = 0"
    by (simp add: toByte_def)
  note T = averaging_never_faults [where cur = ?I and blurSize = 1 and x = 5 and y = 5
      and result = "newImage 1 1" and radius0 = 3 and intensity0 = 30 and pre = ?I and cancel = "\<lambda>k. False"]
  have b: "blur_pixel ?I 1 5 5 (newImage 1 1) = Inr (set3 (newImage 1 1) 5 5 0 0 0)"
    using T unfolding s prod.case z by blast
  have h: "(3 :: int) \<le> 1450 \<and> int (width ?I) + max 1 3 \<le> 2 ^ 31 \<and>
           int (height ?I) + max 1 3 \<le> 2 ^ 31"
    by simp
  have o: "(\<exists>out. applyOilPainting ?I 3 30 = Inr out) \<and>
           (\<exists>res. applyOilPainting_cancelable ?I ?I (\<lambda>k. False) 3 30 = Inr res)"
    using T h by blast
  from s b h o show ?thesis by blast
qed

section \<open>Cancellation restores the pre-filter image\<close>

lemma upt_cancelled: "\<exists>k < n. cancel k \<Longrightarrow> \<exists>y \<in> set [0..<n]. cancel y"
  by auto

lemma cancelled_in_place:
  assumes "\<exists>k < n. cancel k"
  shows "(case cancelable_loop cancel step [0..<n] s of
            Inl (y, partial) \<Rightarrow> (Cancelled, checkCancellation (cancel y) partial pre)
          | Inr done \<Rightarrow> (Completed, done)) = (Cancelled, pre)"
proof -
  obtain y s' where "cancelable_loop cancel step [0..<n] s = Inl (y, s')" "cancel y"
    using cancelable_loop_cancelled [OF upt_cancelled [OF assms], where step = step and s = s] by blast
  then show ?thesis by (simp add: checkCancellation_def)
qed

lemma cancelled_buffered:
  assumes "\<exists>k < n. cancel k"
  shows "(case cancelable_loop cancel step [0..<n] s of
            Inl (y, partial) \<Rightarrow> (Cancelled, checkCancellation (cancel y) cur pre)
          | Inr done \<Rightarrow> (Completed, done)) = (Cancelled, pre)"
proof -
  obtain y s' where "cancelable_loop cancel step [0..<n] s = Inl (y, s')" "cancel y"
    using cancelable_loop_cancelled [OF upt_cancelled [OF assms], where step = step and s = s] by blast
  then show ?thesis by (simp add: checkCancellation_def)
qed

lemma cancelled_buffered_E:
  assumes t: "\<And>y s. y < n \<Longrightarrow> \<exists>s'. step y s = Inr s'" and c: "\<exists>k < n. cancel k"
  shows "(case cancelable_loopE cancel step [0..<n] s of
            Inl e \<Rightarrow> Inl e
          | Inr (Inl (y, partial)) \<Rightarrow> Inr (Cancelled, checkCancellation (cancel y) cur pre)
          | Inr (Inr done) \<Rightarrow> Inr (Completed, done)) = Inr (Cancelled, pre)"
proof -
  have "\<exists>y s'. cancelable_loopE cancel step [0..<n] s = Inr (Inl (y, s')) \<and> cancel y"
  proof (rule cancelable_loopE_cancelled_on [OF _ upt_cancelled [OF c]])
    fix y u
    assume "y \<in> set [0..<n]"
    then have "y < n" by simp
    then show "\<exists>s'. step y u = Inr s'" by (rule t)
  qed
  then obtain y s' where "cancelable_loopE cancel step [0..<n] s = Inr (Inl (y, s'))" "cancel y"
    by blast
  then show ?thesis by (simp add: checkCancellation_def)
qed

lemma cancelled_or_fault_E:
  assumes c: "\<exists>k < n. cancel k"
  shows "(case cancelable_loopE cancel step [0..<n] s of
            Inl e \<Rightarrow> Inl e
          | Inr (Inl (y, partial)) \<Rightarrow> Inr (Cancelled, checkCancellation (cancel y) cur pre)
          | Inr (Inr done) \<Rightarrow> Inr (Completed, done)) = Inr (Cancelled, pre) \<or>
         (\<exists>e. (case cancelable_loopE cancel step [0..<n] s of
            Inl e \<Rightarrow> Inl e
          | Inr (Inl (y, partial)) \<Rightarrow> Inr (Cancelled, checkCancellation (cancel y) cur pre)
          | Inr (Inr done) \<Rightarrow> Inr (Completed, done)) = Inl e)"
proof -
  from cancelable_loopE_cancelled_or_fault [OF upt_cancelled [OF c], of step s]
  consider e where "cancelable_loopE cancel step [0..<n] s = Inl e"
    | y s' where "cancelable_loopE cancel step [0..<n] s = Inr (Inl (y, s'))" "cancel y"
    by blast
  then show ?thesis
  proof cases
    case 1
    then show ?thesis by simp
  next
    case 2
    then show ?thesis by (simp add: checkCancellation_def)
  qed
qed

text \<open>
  C1. For each of the twelve cancelable filters: if the token is found set at one of the polls,
  which happen at the start of every row the filter walks (every column for infrared; emboss
  walks all rows but the last), the filter returns as cancelled and the working buffer is the
  pre-filter image, whatever had been written before.

  Double vision and oil painting compute with their \<^verbatim>\<open>int\<close> parameters in the rows
  before the poll. For them the statement has two parts. Whatever the parameters, a run with
  a set token never completes: it ends as cancelled with the pre-filter image, or a fault has
  ended it before the poll. And when the parameters keep the arithmetic inside the
  \<^verbatim>\<open>int\<close> range (\<open>width + offset\<close> at most \<open>2^31\<close> for double vision; a radius of
  at most 1450 and \<open>width + radius\<close> and \<open>height + radius\<close> at most \<open>2^31\<close> for oil
  painting), there is no such fault and the run ends as cancelled with the pre-filter image.
\<close>

theorem cancellation_restores_snapshot:
  "((\<exists>k < height cur. cancel k) \<longrightarrow> applyGrayscale cur pre cancel = (Cancelled, pre)) \<and>
   ((\<exists>k < height cur. cancel k) \<longrightarrow> applyTVFilter noise cur pre cancel = (Cancelled, pre)) \<and>
   ((\<exists>k < height cur. cancel k) \<longrightarrow> applyBlackAndWhite cur pre cancel = (Cancelled, pre)) \<and>
   ((\<exists>k < height cur. cancel k) \<longrightarrow> applyInvert cur pre cancel = (Cancelled, pre)) \<and>
   ((\<exists>k < height cur. cancel k) \<longrightarrow> applyBlur cur pre cancel strength = Inr (Cancelled, pre)) \<and>
   ((\<exists>k < height cur - 1. cancel k) \<longrightarrow> applyEmboss cur pre cancel = (Cancelled, pre)) \<and>
   ((\<exists>k < height cur. cancel k) \<and> int (width cur) + max 0 offset \<le> 2 ^ 31 \<longrightarrow>
      applyDoubleVision cur pre cancel offset = Inr (Cancelled, pre)) \<and>
   ((\<exists>k < height cur. cancel k) \<longrightarrow>
      applyDoubleVision cur pre cancel offset = Inr (Cancelled, pre) \<or>
      (\<exists>e. applyDoubleVision cur pre cancel offset = Inl e)) \<and>
   ((\<exists>k < height cur. cancel k) \<and> radius \<le> 1450 \<and> int (width cur) + max 1 radius \<le> 2 ^ 31 \<and>
    int (height cur) + max 1 radius \<le> 2 ^ 31 \<longrightarrow>
      applyOilPainting_cancelable cur pre cancel radius intensity = Inr (Cancelled, pre)) \<and>
   ((\<exists>k < height cur. cancel k) \<longrightarrow>
      applyOilPainting_cancelable cur pre cancel radius intensity = Inr (Cancelled, pre) \<or>
      (\<exists>e. applyOilPainting_cancelable cur pre cancel radius intensity = Inl e)) \<and>
   ((\<exists>k < height cur. cancel k) \<longrightarrow> applyEnhanceSunlight cur pre cancel = (Cancelled, pre)) \<and>
   ((\<exists>k < height cur. cancel k) \<longrightarrow> applyFishEye sqrtf powf cur pre cancel = (Cancelled, pre)) \<and>
   ((\<exists>k < width cur. cancel k) \<longrightarrow> applyInfrared cur pre cancel = (Cancelled, pre)) \<and>
   ((\<exists>k < height cur. cancel k) \<longrightarrow> applyPurpleFilter cur pre cancel = (Cancelled, pre))"
proof (intro conjI impI)
  assume c: "\<exists>k < height cur. cancel k"
  show "applyGrayscale cur pre cancel = (Cancelled, pre)"
    unfolding applyGrayscale_def by (rule cancelled_in_place [OF c])
  show "applyTVFilter noise cur pre cancel = (Cancelled, pre)"
    unfolding applyTVFilter_def by (rule cancelled_in_place [OF c])
  show "applyBlackAndWhite cur pre cancel = (Cancelled, pre)"
    unfolding applyBlackAndWhite_def by (rule cancelled_in_place [OF c])
  show "applyInvert cur pre cancel = (Cancelled, pre)"
    unfolding applyInvert_def by (rule cancelled_in_place [OF c])
  show "applyBlur cur pre cancel strength = Inr (Cancelled, pre)"
    unfolding applyBlur_def Let_def by (rule cancelled_buffered_E [OF blur_row_total c])
  show "applyDoubleVision cur pre cancel offset = Inr (Cancelled, pre) \<or>
        (\<exists>e. applyDoubleVision cur pre cancel offset = Inl e)"
    unfolding applyDoubleVision_def Let_def by (rule cancelled_or_fault_E [OF c])
  show "applyOilPainting_cancelable cur pre cancel radius intensity = Inr (Cancelled, pre) \<or>
        (\<exists>e. applyOilPainting_cancelable cur pre cancel radius intensity = Inl e)"
    unfolding applyOilPainting_cancelable_def Let_def by (rule cancelled_or_fault_E [OF c])
  show "applyEnhanceSunlight cur pre cancel = (Cancelled, pre)"
    unfolding applyEnhanceSunlight_def by (rule cancelled_buffered [OF c])
  show "applyFishEye sqrtf powf cur pre cancel = (Cancelled, pre)"
    unfolding applyFishEye_def by (rule cancelled_buffered [OF c])
  show "applyPurpleFilter cur pre cancel = (Cancelled, pre)"
    unfolding applyPurpleFilter_def by (rule cancelled_in_place [OF c])
next
  assume c: "\<exists>k < height cur - 1. cancel k"
  show "applyEmboss cur pre cancel = (Cancelled, pre)"
    unfolding applyEmboss_def by (rule cancelled_buffered [OF c])
next
  assume c: "\<exists>k < width cur. cancel k"
  show "applyInfrared cur pre cancel = (Cancelled, pre)"
    unfolding applyInfrared_def by (rule cancelled_in_place [OF c])
next
  assume a: "(\<exists>k < height cur. cancel k) \<and> int (width cur) + max 0 offset \<le> 2 ^ 31"
  then have c: "\<exists>k < height cur. cancel k" and w: "int (width cur) + max 0 offset \<le> 2 ^ 31"
    by simp_all
  have o: "0 \<le> max 0 offset" by simp
  show "applyDoubleVision cur pre cancel offset = Inr (Cancelled, pre)"
    unfolding applyDoubleVision_def Let_def
    by (rule cancelled_buffered_E [OF doublevision_row_total [OF o w] c])
next
  assume a: "(\<exists>k < height cur. cancel k) \<and> radius \<le> 1450 \<and>
             int (width cur) + max 1 radius \<le> 2 ^ 31 \<and> int (height cur) + max 1 radius \<le> 2 ^ 31"
  then have c: "\<exists>k < height cur. cancel k"
    and r: "1 \<le> max 1 radius" "max 1 radius \<le> 1450"
    and w: "int (width cur) + max 1 radius \<le> 2 ^ 31"
    and h: "int (height cur) + max 1 radius \<le> 2 ^ 31"
    by simp_all
  show "applyOilPainting_cancelable cur pre cancel radius intensity = Inr (Cancelled, pre)"
    unfolding applyOilPainting_cancelable_def Let_def
    by (rule cancelled_buffered_E [OF oil_row_total [OF r w h] c])
qed

theorem cancellation_restores_snapshot_witness:
  "applyGrayscale \<lparr>width = 2, height = 3, imageData = replicate 18 7\<rparr>
      \<lparr>width = 2, height = 3, imageData = replicate 18 9\<rparr> (\<lambda>k. k = 1)
     = (Cancelled, \<lparr>width = 2, height = 3, imageData = replicate 18 9\<rparr>) \<and>
   applyTVFilter (\<lambda>x y. 0) \<lparr>width = 2, height = 3, imageData = replicate 18 7\<rparr>
      \<lparr>width = 2, height = 3, imageData = replicate 18 9\<rparr> (\<lambda>k. k = 1)
     = (Cancelled, \<lparr>width = 2, height = 3, imageData = replicate 18 9\<rparr>) \<and>
   applyBlackAndWhite \<lparr>width = 2, height = 3, imageData = replicate 18 7\<rparr>
      \<lparr>width = 2, height = 3, imageData = replicate 18 9\<rparr> (\<lambda>k. k = 1)
     = (Cancelled, \<lparr>width = 2, height = 3, imageData = replicate 18 9\<rparr>) \<and>
   applyInvert \<lparr>width = 2, height = 3, imageData = replicate 18 7\<rparr>
      \<lparr>width = 2, height = 3, imageData = replicate 18 9\<rparr> (\<lambda>k. k = 1)
     = (Cancelled, \<lparr>width = 2, height = 3, imageData = replicate 18 9\<rparr>) \<and>
   applyBlur \<lparr>width = 2, height = 3, imageData = replicate 18 7\<rparr>
      \<lparr>width = 2, height = 3, imageData = replicate 18 9\<rparr> (\<lambda>k. k = 1) 60
     = Inr (Cancelled, \<lparr>width = 2, height = 3, imageData = replicate 18 9\<rparr>) \<and>
   applyEmboss \<lparr>width = 2, height = 3, imageData = replicate 18 7\<rparr>
      \<lparr>width = 2, height = 3, imageData = replicate 18 9\<rparr> (\<lambda>k. k = 1)
     = (Cancelled, \<lparr>width = 2, height = 3, imageData = replicate 18 9\<rparr>) \<and>
   applyDoubleVision \<lparr>width = 2, height = 3, imageData = replicate 18 7\<rparr>
      \<lparr>width = 2, height = 3, imageData = replicate 18 9\<rparr> (\<lambda>k. k = 1) 15
     = Inr (Cancelled, \<lparr>width = 2, height = 3, imageData = replicate 18 9\<rparr>) \<and>
   applyOilPainting_cancelable \<lparr>width = 2, height = 3, imageData = replicate 18 7\<rparr>
      \<lparr>width = 2, height = 3, imageData = replicate 18 9\<rparr> (\<lambda>k. k = 1) 3 30
     = Inr (Cancelled, \<lparr>width = 2, height = 3, imageData = replicate 18 9\<rparr>) \<and>
   applyEnhanceSunlight \<lparr>width = 2, height = 3, imageData = replicate 18 7\<rparr>
      \<lparr>width = 2, height = 3, imageData = replicate 18 9\<rparr> (\<lambda>k. k = 1)
     = (Cancelled, \<lparr>width = 2, height = 3, imageData = replicate 18 9\<rparr>) \<and>
   applyFishEye (\<lambda>q. q) (\<lambda>a b. a) \<lparr>width = 2, height = 3, imageData = replicate 18 7\<rparr>
      \<lparr>width = 2, height = 3, imageData = replicate 18 9\<rparr> (\<lambda>k. k = 1)
     = (Cancelled, \<lparr>width = 2, height = 3, imageData = replicate 18 9\<rparr>) \<and>
   applyInfrared \<lparr>width = 2, height = 3, imageData = replicate 18 7\<rparr>
      \<lparr>width = 2, height = 3, imageData = replicate 18 9\<rparr> (\<lambda>k. k = 1)
     = (Cancelled, \<lparr>width = 2, height = 3, imageData = replicate 18 9\<rparr>) \<and>
   applyPurpleFilter \<lparr>width = 2, height = 3, imageData = replicate 18 7\<rparr>
      \<lparr>width = 2, height = 3, imageData = replicate 18 9\<rparr> (\<lambda>k. k = 1)
     = (Cancelled, \<lparr>width = 2, height = 3, imageData = replicate 18 9\<rparr>)"
proof -
  let ?cur = "\<lparr>width = 2, height = 3, imageData = replicate 18 7\<rparr>"
  let ?pre = "\<lparr>width = 2, height = 3, imageData = replicate 18 9\<rparr>"
  have h: "\<exists>k < height ?cur. k = 1"
    and h1: "\<exists>k < height ?cur - 1. k = 1"
    and w: "\<exists>k < width ?cur. k = 1"
    by simp_all
  have o: "(\<exists>k < height ?cur. k = 1) \<and> int (width ?cur) + max 0 15 \<le> 2 ^ 31"
    by simp
  have r: "(\<exists>k < height ?cur. k = 1) \<and> (3 :: int) \<le> 1450 \<and>
           int (width ?cur) + max 1 3 \<le> 2 ^ 31 \<and> int (height ?cur) + max 1 3 \<le> 2 ^ 31"
    by simp
  note T = cancellation_restores_snapshot [where cur = ?cur and pre = ?pre and cancel = "\<lambda>k. k = 1"
        and noise = "\<lambda>x y. 0" and strength = 60 and offset = 15 and radius = 3 and intensity = 30
        and sqrtf = "\<lambda>q. q" and powf = "\<lambda>a b. a"]
  note R1 = T [THEN conjunct2]
  note R2 = R1 [THEN conjunct2]
  note R3 = R2 [THEN conjunct2]
  note R4 = R3 [THEN conjunct2]
  note R5 = R4 [THEN conjunct2]
  note R6 = R5 [THEN conjunct2]
  note R7 = R6 [THEN conjunct2]
  note R8 = R7 [THEN conjunct2]
  note R9 = R8 [THEN conjunct2]
  note R10 = R9 [THEN conjunct2]
  note R11 = R10 [THEN conjunct2]
  note R12 = R11 [THEN conjunct2]
  note R13 = R12 [THEN conjunct2]
  show ?thesis
  proof (intro conjI)
    show "applyGrayscale ?cur ?pre (\<lambda>k. k = 1) = (Cancelled, ?pre)"
      by (rule T [THEN conjunct1, THEN mp, OF h])
    show "applyTVFilter (\<lambda>x y. 0) ?cur ?pre (\<lambda>k. k = 1) = (Cancelled, ?pre)"
      by (rule R1 [THEN conjunct1, THEN mp, OF h])
    show "applyBlackAndWhite ?cur ?pre (\<lambda>k. k = 1) = (Cancelled, ?pre)"
      by (rule R2 [THEN conjunct1, THEN mp, OF h])
    show "applyInvert ?cur ?pre (\<lambda>k. k = 1) = (Cancelled, ?pre)"
      by (rule R3 [THEN conjunct1, THEN mp, OF h])
    show "applyBlur ?cur ?pre (\<lambda>k. k = 1) 60 = Inr (Cancelled, ?pre)"
      by (rule R4 [THEN conjunct1, THEN mp, OF h])
    show "applyEmboss ?cur ?pre (\<lambda>k. k = 1) = (Cancelled, ?pre)"
      by (rule R5 [THEN conjunct1, THEN mp, OF h1])
    show "applyDoubleVision ?cur ?pre (\<lambda>k. k = 1) 15 = Inr (Cancelled, ?pre)"
      by (rule R6 [THEN conjunct1, THEN mp, OF o])
    show "applyOilPainting_cancelable ?cur ?pre (\<lambda>k. k = 1) 3 30 = Inr (Cancelled, ?pre)"
      by (rule R8 [THEN conjunct1, THEN mp, OF r])
    show "applyEnhanceSunlight ?cur ?pre (\<lambda>k. k = 1) = (Cancelled, ?pre)"
      by (rule R10 [THEN conjunct1, THEN mp, OF h])
    show "applyFishEye (\<lambda>q. q) (\<lambda>a b. a) ?cur ?pre (\<lambda>k. k = 1) = (Cancelled, ?pre)"
      by (rule R11 [THEN conjunct1, THEN mp, OF h])
    show "applyInfrared ?cur ?pre (\<lambda>k. k = 1) = (Cancelled, ?pre)"
      by (rule R12 [THEN conjunct1, THEN mp, OF w])
    show "applyPurpleFilter ?cur ?pre (\<lambda>k. k = 1) = (Cancelled, ?pre)"
      by (rule R13 [THEN mp, OF h])
  qed
qed

section \<open>Blur: the box mean\<close>

lemma blur_accum_add:
  "blur_accum img x y i j acc =
     (if in_image img (int x + j) (int y + i) then blur_add img (int x + j, int y + i) acc else acc)"
  by (cases acc) (simp add: blur_accum_def blur_add_def sample_def Let_def)

lemma blur_inner_fold:
  "fold (\<lambda>j. blur_accum img x y i j) js acc =
     fold (blur_add img)
       (map (\<lambda>j. (int x + j, int y + i)) (filter (\<lambda>j. in_image img (int x + j) (int y + i)) js)) acc"
  by (induction js arbitrary: acc) (simp_all add: blur_accum_add)

lemma blur_outer_fold:
  "fold (\<lambda>i. fold (\<lambda>j. blur_accum img x y i j) js) is acc =
     fold (blur_add img)
       (concat (map (\<lambda>i. map (\<lambda>j. (int x + j, int y + i))
                             (filter (\<lambda>j. in_image img (int x + j) (int y + i)) js)) is)) acc"
  by (induction "is" arbitrary: acc) (simp_all add: blur_inner_fold)

lemma fold_blur_add:
  "fold (blur_add img) ps (R, G, B, n) =
     (R + sum_list (map (sample img 0) ps), G + sum_list (map (sample img 1) ps),
      B + sum_list (map (sample img 2) ps), n + int (length ps))"
  by (induction ps arbitrary: R G B n) (simp_all add: blur_add_def)

lemma blur_sums_window:
  "blur_sums img r x y =
     (sum_list (map (sample img 0) (window img r x y)),
      sum_list (map (sample img 1) (window img r x y)),
      sum_list (map (sample img 2) (window img r x y)),
      int (length (window img r x y)))"
  by (simp add: blur_sums_def blur_outer_fold window_def [symmetric] fold_blur_add)

lemma sample_bounds: "0 \<le> sample img c p" "sample img c p \<le> 255"
  using uint_byte_less [of "getPixel img (nat (fst p)) (nat (snd p)) c"]
  by (simp_all add: sample_def)

lemma sum_samples_bounds:
  "0 \<le> sum_list (map (sample img c) ps)"
  "sum_list (map (sample img c) ps) \<le> 255 * int (length ps)"
proof -
  show "0 \<le> sum_list (map (sample img c) ps)"
    by (induction ps) (simp_all add: sample_bounds)
  show "sum_list (map (sample img c) ps) \<le> 255 * int (length ps)"
  proof (induction ps)
    case Nil
    then show ?case by simp
  next
    case (Cons p ps)
    then show ?case using sample_bounds(2) [of img c p] by simp
  qed
qed

lemma centre_in_window:
  assumes "0 \<le> r" "x < width img" "y < height img"
  shows "(int x, int y) \<in> set (window img r x y)"
proof -
  have "(0::int) \<in> set [- r..r]" using assms(1) by simp
  moreover have "in_image img (int x + 0) (int y + 0)"
    using assms(2,3) by (simp add: in_image_def)
  ultimately show ?thesis
    unfolding window_def set_concat set_map set_filter by force
qed

lemma window_nonempty:
  assumes "0 \<le> r" "x < width img" "y < height img"
  shows "1 \<le> int (length (window img r x y))"
proof -
  have "window img r x y \<noteq> []"
    using centre_in_window [OF assms] by auto
  then show ?thesis
    by (cases "window img r x y") simp_all
qed

lemma box_mean_bounds:
  assumes "0 \<le> r" "x < width img" "y < height img"
  shows "0 \<le> box_mean img r x y c" "box_mean img r x y c < 256"
proof -
  let ?S = "sum_list (map (sample img c) (window img r x y))"
  let ?n = "int (length (window img r x y))"
  have n: "1 \<le> ?n" by (rule window_nonempty [OF assms])
  have S: "0 \<le> ?S" "?S \<le> 255 * ?n" by (rule sum_samples_bounds)+
  have npos: "0 < ?n" using n by linarith
  show "0 \<le> box_mean img r x y c"
    unfolding box_mean_def by (rule pos_imp_zdiv_nonneg_iff [THEN iffD2, OF npos S(1)])
  have "?S div ?n \<le> (255 * ?n) div ?n"
    by (rule zdiv_mono1 [OF S(2) npos])
  also have "\<dots> = 255" using npos by simp
  finally show "box_mean img r x y c < 256"
    by (simp add: box_mean_def)
qed

lemma blurSize_of_ge_1: "1 \<le> blurSize_of strength"
  by (simp add: blurSize_of_def Let_def)

lemma wf_newImage [simp]: "wf_image (newImage w h)"
  by (simp add: wf_image_def newImage_def)

lemma width_newImage [simp]: "width (newImage w h) = w"
  by (simp add: newImage_def)

lemma height_newImage [simp]: "height (newImage w h) = h"
  by (simp add: newImage_def)

lemma fold_rows_new:
  assumes F: "local_update F g"
    and xs: "set xs \<subseteq> {..<w}" "distinct xs" and ys: "set ys \<subseteq> {..<h}" "distinct ys"
  defines "out \<equiv> fold (\<lambda>y. fold (\<lambda>x. F x y) xs) ys (newImage w h)"
  shows "width out = w" "height out = h" "wf_image out"
    and "\<And>x y c. x < w \<Longrightarrow> y < h \<Longrightarrow> c < 3 \<Longrightarrow>
           getPixel out x y c =
             (if x \<in> set xs \<and> y \<in> set ys then g x y (px (newImage w h) x y) c
              else getPixel (newImage w h) x y c)"
proof -
  have L: "width out = width (newImage w h) \<and> height out = height (newImage w h) \<and> wf_image out \<and>
         (\<forall>x' y' c'. x' < width (newImage w h) \<and> y' < height (newImage w h) \<and> c' < 3 \<longrightarrow>
            getPixel out x' y' c' =
              (if x' \<in> set xs \<and> y' \<in> set ys then g x' y' (px (newImage w h) x' y') c'
               else getPixel (newImage w h) x' y' c'))"
    unfolding out_def
    by (rule fold_rows_local [OF F wf_newImage]) (use xs ys in simp_all)
  show "width out = w" "height out = h" "wf_image out"
    using L by simp_all
  fix x y c :: nat
  assume "x < w" "y < h" "c < 3"
  then show "getPixel out x y c =
             (if x \<in> set xs \<and> y \<in> set ys then g x y (px (newImage w h) x y) c
              else getPixel (newImage w h) x y c)"
    using L by simp
qed

lemma blur_write_local:
  "local_update
     (\<lambda>x y result. case blur_sums cur r x y of (R, G, B, count) \<Rightarrow>
        set3 result x y (toByte (R div max 1 count)) (toByte (G div max 1 count))
          (toByte (B div max 1 count)))
     (\<lambda>x y p c. case blur_sums cur r x y of (R, G, B, count) \<Rightarrow>
        chan (toByte (R div max 1 count), toByte (G div max 1 count), toByte (B div max 1 count)) c)"
  unfolding local_update_def
proof (intro allI impI, elim conjE)
  fix img x y
  assume a: "wf_image img" "x < width img" "y < height img"
  obtain R G B n where s: "blur_sums cur r x y = (R, G, B, n)"
    by (cases "blur_sums cur r x y") auto
  note S = set3_local [OF a, where a = "toByte (R div max 1 n)" and b = "toByte (G div max 1 n)"
      and d = "toByte (B div max 1 n)"]
  show "width (case blur_sums cur r x y of (R, G, B, count) \<Rightarrow>
          set3 img x y (toByte (R div max 1 count)) (toByte (G div max 1 count))
            (toByte (B div max 1 count))) = width img \<and>
        height (case blur_sums cur r x y of (R, G, B, count) \<Rightarrow>
          set3 img x y (toByte (R div max 1 count)) (toByte (G div max 1 count))
            (toByte (B div max 1 count))) = height img \<and>
        wf_image (case blur_sums cur r x y of (R, G, B, count) \<Rightarrow>
          set3 img x y (toByte (R div max 1 count)) (toByte (G div max 1 count))
            (toByte (B div max 1 count))) \<and>
        (\<forall>x' y' c'. x' < width img \<and> y' < height img \<and> c' < 3 \<longrightarrow>
           getPixel (case blur_sums cur r x y of (R, G, B, count) \<Rightarrow>
             set3 img x y (toByte (R div max 1 count)) (toByte (G div max 1 count))
               (toByte (B div max 1 count))) x' y' c' =
             (if x' = x \<and> y' = y
              then case blur_sums cur r x y of (R, G, B, count) \<Rightarrow>
                chan (toByte (R div max 1 count), toByte (G div max 1 count),
                      toByte (B div max 1 count)) c'
              else getPixel img x' y' c'))"
    unfolding s using S by simp
qed

lemma applyBlur_completed:
  assumes "\<forall>y < height cur. \<not> cancel y"
  shows "applyBlur cur pre cancel strength =
           Inr (Completed,
                fold (\<lambda>y. fold (\<lambda>x result.
                        case blur_sums cur (blurSize_of strength) x y of (R, G, B, count) \<Rightarrow>
                          set3 result x y (toByte (R div max 1 count)) (toByte (G div max 1 count))
                            (toByte (B div max 1 count)))
                      [0..<width cur]) [0..<height cur] (newImage (width cur) (height cur)))"
proof -
  let ?r = "blurSize_of strength"
  let ?F = "\<lambda>x y result. case blur_sums cur ?r x y of (R, G, B, count) \<Rightarrow>
              set3 result x y (toByte (R div max 1 count)) (toByte (G div max 1 count))
                (toByte (B div max 1 count))"
  have row: "blur_row cur ?r y result = Inr (fold (\<lambda>x. ?F x y) [0..<width cur] result)" for y result
    unfolding blur_row_def by (rule foldE_Inr) (rule blur_pixel_Inr)
  have "cancelable_loopE cancel (blur_row cur ?r) [0..<height cur] (newImage (width cur) (height cur))
          = Inr (cancelable_loop cancel (\<lambda>y. fold (\<lambda>x. ?F x y) [0..<width cur]) [0..<height cur]
                   (newImage (width cur) (height cur)))"
    by (rule cancelable_loopE_Inr) (rule row)
  also have "cancelable_loop cancel (\<lambda>y. fold (\<lambda>x. ?F x y) [0..<width cur]) [0..<height cur]
                   (newImage (width cur) (height cur))
          = Inr (fold (\<lambda>y. fold (\<lambda>x. ?F x y) [0..<width cur]) [0..<height cur]
                   (newImage (width cur) (height cur)))"
    using assms by (intro cancelable_loop_never) simp
  finally show ?thesis
    by (simp add: applyBlur_def Let_def)
qed

text \<open>
  C5. For a strength in \<open>[0, 100]\<close> the blur uses the radius
  \<open>r = max 1 (strength * 24 div 100 + 1)\<close>, which is 1 for strength 0 (a 3 by 3 box, not a
  no-op). After a completed run on a well-formed buffer every channel of every pixel is the
  mean of the in-bounds samples of the \<open>(2r+1) \<times> (2r+1)\<close> window centred on the pixel, the
  divisor being the number of those samples.
\<close>

theorem applyBlur_box_mean:
  assumes "wf_image cur" and "\<forall>y < height cur. \<not> cancel y"
    and "x < width cur" "y < height cur" "c < 3"
    and "0 \<le> strength" "strength \<le> 100"
  shows "blurSize_of strength = max 1 (strength * 24 div 100 + 1) \<and>
         blurSize_of 0 = 1 \<and>
         (\<exists>out. applyBlur cur pre cancel strength = Inr (Completed, out) \<and>
                width out = width cur \<and> height out = height cur \<and>
                uint (getPixel out x y c) = box_mean cur (blurSize_of strength) x y c)"
proof (intro conjI)
  show "blurSize_of strength = max 1 (strength * 24 div 100 + 1)"
    using assms(6,7) by (simp add: blurSize_of_def)
  show "blurSize_of 0 = 1"
    by (simp add: blurSize_of_def)
  let ?r = "blurSize_of strength"
  let ?F = "\<lambda>x y result. case blur_sums cur ?r x y of (R, G, B, count) \<Rightarrow>
              set3 result x y (toByte (R div max 1 count)) (toByte (G div max 1 count))
                (toByte (B div max 1 count))"
  let ?out = "fold (\<lambda>y. fold (\<lambda>x. ?F x y) [0..<width cur]) [0..<height cur]
                (newImage (width cur) (height cur))"
  have r0: "0 \<le> ?r" using blurSize_of_ge_1 [of strength] by simp
  note L = fold_rows_new [OF blur_write_local [of cur ?r] upt_below distinct_upt upt_below distinct_upt,
      where w = "width cur" and h = "height cur"]
  have L': "width ?out = width cur \<and> height ?out = height cur"
    using L(1,2) by simp
  have n: "max 1 (int (length (window cur ?r x y))) = int (length (window cur ?r x y))"
    using window_nonempty [OF r0 assms(3,4)] by simp
  have c: "c = 0 \<or> c = 1 \<or> c = 2" using assms(5) by arith
  have "getPixel ?out x y c = toByte (box_mean cur ?r x y c)"
    using L(4) [OF assms(3-5)] assms(3,4) c by (auto simp: blur_sums_window chan_def box_mean_def n)
  then have "uint (getPixel ?out x y c) = box_mean cur ?r x y c"
    using box_mean_bounds [OF r0 assms(3,4), of c] by (simp add: uint_toByte)
  then show "\<exists>out. applyBlur cur pre cancel strength = Inr (Completed, out) \<and>
                width out = width cur \<and> height out = height cur \<and>
                uint (getPixel out x y c) = box_mean cur (blurSize_of strength) x y c"
    using applyBlur_completed [OF assms(2), of pre strength] L' by simp
qed

theorem applyBlur_box_mean_witness:
  "wf_image \<lparr>width = 2, height = 1, imageData = [10, 20, 30, 20, 40, 60]\<rparr> \<and>
   blurSize_of 0 = 1 \<and>
   (\<exists>out. applyBlur \<lparr>width = 2, height = 1, imageData = [10, 20, 30, 20, 40, 60]\<rparr>
             \<lparr>width = 2, height = 1, imageData = [10, 20, 30, 20, 40, 60]\<rparr> (\<lambda>_. False) 0
           = Inr (Completed, out) \<and>
          width out = 2 \<and> height out = 1 \<and> uint (getPixel out 0 0 0) = 15)"
proof -
  let ?cur = "\<lparr>width = 2, height = 1, imageData = [10, 20, 30, 20, 40, 60]\<rparr>"
  have m: "box_mean ?cur (blurSize_of 0) 0 0 0 = 15"
    by code_simp
  have wf: "wf_image ?cur"
    by (simp add: wf_image_def channels_def)
  have "blurSize_of 0 = max 1 (0 * 24 div 100 + 1) \<and> blurSize_of 0 = 1 \<and>
        (\<exists>out. applyBlur ?cur ?cur (\<lambda>_. False) 0 = Inr (Completed, out) \<and>
           width out = width ?cur \<and> height out = height ?cur \<and>
           uint (getPixel out 0 0 0) = box_mean ?cur (blurSize_of 0) 0 0 0)"
    by (rule applyBlur_box_mean [where cur = ?cur and pre = ?cur and cancel = "\<lambda>_. False"
          and x = 0 and y = 0 and c = 0 and strength = 0, OF wf]) simp_all
  from this [unfolded m] wf show ?thesis
    by simp
qed

section \<open>Rounding is exact on integers\<close>

lemma bitlen_pos: "0 < n \<Longrightarrow> bitlen n = 1 + bitlen (n div 2)"
  by (subst bitlen.simps) simp

lemma bitlen_nonpos: "n \<le> 0 \<Longrightarrow> bitlen n = 0"
  by (subst bitlen.simps) simp

lemma bitlen_bounds:
  "0 < n \<Longrightarrow> 1 \<le> bitlen n \<and> 2 ^ nat (bitlen n - 1) \<le> n \<and> n < 2 ^ nat (bitlen n)"
proof (induction n rule: bitlen.induct)
  case (1 n)
  show ?case
  proof (cases "n div 2 = 0")
    case True
    with "1.prems" have n1: "n = 1" by presburger
    have "bitlen 1 = 1"
      by (simp add: bitlen_pos bitlen_nonpos)
    with n1 show ?thesis by simp
  next
    case False
    with "1.prems" have h: "0 < n div 2" by presburger
    from "1.IH" [OF _ h] "1.prems"
    have IH: "1 \<le> bitlen (n div 2)" "2 ^ nat (bitlen (n div 2) - 1) \<le> n div 2"
      "n div 2 < 2 ^ nat (bitlen (n div 2))"
      by simp_all
    let ?b = "bitlen (n div 2)"
    have b: "bitlen n = 1 + ?b" using "1.prems" by (rule bitlen_pos)
    have e: "(2::int) ^ nat ?b = 2 * 2 ^ nat (?b - 1)"
      using IH(1) by (metis Suc_nat_eq_nat_zadd1 add.commute diff_add_cancel diff_ge_0_iff_ge power_Suc)
    have "(2::int) ^ nat (bitlen n - 1) = 2 ^ nat ?b" by (simp add: b)
    also have "\<dots> \<le> 2 * (n div 2)" using IH(2) e by simp
    also have "\<dots> \<le> n" by presburger
    finally have lo: "2 ^ nat (bitlen n - 1) \<le> n" .
    have "nat (bitlen n) = Suc (nat ?b)" using IH(1) by (simp add: b)
    then have "(2::int) ^ nat (bitlen n) = 2 * 2 ^ nat ?b" by simp
    moreover have "n < 2 * (n div 2 + 1)" by presburger
    moreover have "n div 2 + 1 \<le> 2 ^ nat ?b" using IH(3) by simp
    ultimately have hi: "n < 2 ^ nat (bitlen n)" by linarith
    from lo hi IH(1) b show ?thesis by simp
  qed
qed

lemma bitlen_le:
  assumes "0 < n" "n < 2 ^ p"
  shows "bitlen n \<le> int p"
proof -
  have "(2::int) ^ nat (bitlen n - 1) < 2 ^ p"
    using bitlen_bounds [OF assms(1)] assms(2) by linarith
  then have "nat (bitlen n - 1) < p"
    by (simp add: power_strict_increasing_iff)
  then show ?thesis by linarith
qed

lemma rne_of_int: "rne (of_int z) = z"
  by (simp add: rne_def)

lemma pow2_nonpos: "e \<le> 0 \<Longrightarrow> pow2 e = 1 / 2 ^ nat (- e)"
  by (cases "e = 0") (simp_all add: pow2_def)

lemma ilog2_of_int:
  assumes "0 < n"
  shows "ilog2 (of_int n) = bitlen n - 1"
proof -
  have b1: "bitlen 1 = 1" by (simp add: bitlen_pos bitlen_nonpos)
  note B = bitlen_bounds [OF assms]
  have "pow2 (bitlen n - 1) = of_int (2 ^ nat (bitlen n - 1))"
    using B by (simp add: pow2_def)
  also have "\<dots> \<le> of_int n"
    using B by (subst of_int_le_iff) simp
  finally show ?thesis
    by (simp add: ilog2_def b1)
qed

lemma fp_round_of_int:
  assumes "0 \<le> n" "n < 2 ^ p"
  shows "fp_round p (of_int n) = of_int n"
proof (cases "n = 0")
  case True
  then show ?thesis by (simp add: fp_round_def)
next
  case False
  with assms(1) have pos: "0 < n" by simp
  let ?m = "nat (int p - bitlen n)"
  have le: "bitlen n \<le> int p" by (rule bitlen_le [OF pos assms(2)])
  have ab: "\<bar>of_int n :: rat\<bar> = of_int n" using pos by simp
  have u: "pow2 (ilog2 \<bar>of_int n\<bar> + 1 - int p) = 1 / 2 ^ ?m"
    unfolding ab using le by (simp add: ilog2_of_int [OF pos] pow2_nonpos)
  have "\<bar>of_int n :: rat\<bar> / (1 / 2 ^ ?m) = of_int (n * 2 ^ ?m)"
    using pos by simp
  then have r: "rne (\<bar>of_int n\<bar> / (1 / 2 ^ ?m)) = n * 2 ^ ?m"
    by (simp only: rne_of_int)
  have nz: "(of_int n :: rat) \<noteq> 0" using pos by simp
  have "fp_round p (of_int n) =
          sgn (of_int n :: rat) * (of_int (rne (\<bar>of_int n\<bar> / (1 / 2 ^ ?m))) * (1 / 2 ^ ?m))"
    unfolding fp_round_def Let_def u using nz by (simp only: if_False)
  also have "\<dots> = sgn (of_int n :: rat) * (of_int (n * 2 ^ ?m) * (1 / 2 ^ ?m))"
    by (simp only: r)
  also have "\<dots> = of_int n"
    using pos by simp
  finally show ?thesis .
qed


lemma rd_of_int: "0 \<le> n \<Longrightarrow> n < 2 ^ 53 \<Longrightarrow> rd (of_int n) = of_int n"
  unfolding rd_def by (rule fp_round_of_int)

lemma rd_of_nat: "n < 2 ^ 31 \<Longrightarrow> rd (of_nat n) = of_nat n"
proof -
  assume "n < 2 ^ 31"
  then have "int n < 2 ^ 31" by (metis of_nat_less_iff of_nat_numeral of_nat_power)
  also have "(2::int) ^ 31 < 2 ^ 53" by simp
  finally have "int n < 2 ^ 53" .
  then have "rd (of_int (int n)) = of_int (int n)"
    by (intro rd_of_int) simp_all
  then show ?thesis by simp
qed

lemma rd_1: "rd 1 = 1"
  using rd_of_int [of 1] by simp

lemma trunc_of_int: "trunc (of_int n) = n"
  by (simp add: trunc_def)

lemma trunc_of_nat: "trunc (of_nat n) = int n"
  using trunc_of_int [of "int n"] by simp

section \<open>Resize to the same dimensions\<close>

lemma foldE_Inr_on:
  "(\<And>x s. x \<in> set xs \<Longrightarrow> f x s = Inr (g x s)) \<Longrightarrow> foldE f xs s = Inr (fold g xs s)"
  by (induction xs arbitrary: s) simp_all

lemma identity_ratio:
  assumes "0 < n" "n < 2 ^ 31"
  shows "ddiv (itod (int n)) (itod (int n)) = 1"
proof -
  have "(of_nat n :: rat) / of_nat n = 1" using assms(1) by simp
  then show ?thesis
    using assms(2) by (simp add: ddiv_def itod_def rd_of_nat rd_1)
qed

lemma identity_source:
  assumes "x < n" "n < 2 ^ 31"
  shows "trunc (dmul (itod (int x)) 1) = int x"
proof -
  have "x < 2 ^ 31" using assms by simp
  then show ?thesis
    by (simp add: dmul_def itod_def rd_of_nat trunc_of_nat)
qed

lemma getPixelAt_in_range:
  "x < width img \<Longrightarrow> y < height img \<Longrightarrow> c < 3 \<Longrightarrow>
     getPixelAt img (int x) (int y) c = Inr (getPixel img x y c)"
  by (simp add: getPixelAt_def channels_def)

lemma resize_pixel_identity:
  assumes "x < width B" "y < height B" "width B < 2 ^ 31" "height B < 2 ^ 31"
  shows "resize_pixel B 1 1 x y result =
           Inr (set3 result x y (getPixel B x y 0) (getPixel B x y 1) (getPixel B x y 2))"
proof -
  have sx: "min (int x) (int (width B) - 1) = int x" using assms(1) by simp
  have sy: "min (int y) (int (height B) - 1) = int y" using assms(2) by simp
  show ?thesis
    unfolding resize_pixel_def Let_def identity_source [OF assms(1,3)] identity_source [OF assms(2,4)]
      sx sy
    using assms(1,2) by (simp add: getPixelAt_in_range)
qed

lemma copy_write_local:
  "local_update (\<lambda>x y result. set3 result x y (getPixel B x y 0) (getPixel B x y 1) (getPixel B x y 2))
     (\<lambda>x y p c. chan (px B x y) c)"
  unfolding local_update_def
proof (intro allI impI, elim conjE)
  fix img x y
  assume a: "wf_image img" "x < width img" "y < height img"
  note S = set3_local [OF a, where a = "getPixel B x y 0" and b = "getPixel B x y 1"
      and d = "getPixel B x y 2"]
  show "width (set3 img x y (getPixel B x y 0) (getPixel B x y 1) (getPixel B x y 2)) = width img \<and>
        height (set3 img x y (getPixel B x y 0) (getPixel B x y 1) (getPixel B x y 2)) = height img \<and>
        wf_image (set3 img x y (getPixel B x y 0) (getPixel B x y 1) (getPixel B x y 2)) \<and>
        (\<forall>x' y' c'. x' < width img \<and> y' < height img \<and> c' < 3 \<longrightarrow>
           getPixel (set3 img x y (getPixel B x y 0) (getPixel B x y 1) (getPixel B x y 2)) x' y' c' =
             (if x' = x \<and> y' = y then chan (px B x y) c' else getPixel img x' y' c'))"
    using S by (simp add: px_def)
qed

text \<open>
  C4. Resizing a well-formed buffer to its own width and height gives the buffer back: the ratio
  of equal dimensions is exactly 1 in \<^verbatim>\<open>double\<close>, the source coordinate of \<open>(x, y)\<close> is
  \<open>(x, y)\<close> itself, and every pixel is copied. The dimensions are those of a C \<^verbatim>\<open>int\<close>.
\<close>

theorem applyResize_identity:
  assumes "wf_image B" "width B < 2 ^ 31" "height B < 2 ^ 31"
  shows "applyResize B (width B) (height B) = B"
proof -
  let ?F = "\<lambda>x y result. set3 result x y (getPixel B x y 0) (getPixel B x y 1) (getPixel B x y 2)"
  let ?xr = "ddiv (itod (int (width B))) (itod (int (width B)))"
  let ?yr = "ddiv (itod (int (height B))) (itod (int (height B)))"
  let ?out = "fold (\<lambda>y. fold (\<lambda>x. ?F x y) [0..<width B]) [0..<height B] (newImage (width B) (height B))"
  have px: "resize_pixel B ?xr ?yr x y result = Inr (?F x y result)"
    if "x \<in> set [0..<width B]" "y \<in> set [0..<height B]" for x y result
  proof -
    have xy: "x < width B" "y < height B" using that by simp_all
    then have "?xr = 1" "?yr = 1"
      using assms(2,3) by (simp_all add: identity_ratio)
    then show ?thesis
      using resize_pixel_identity [OF xy assms(2,3)] by simp
  qed
  have row: "foldE (\<lambda>x. resize_pixel B ?xr ?yr x y) [0..<width B] result
               = Inr (fold (\<lambda>x. ?F x y) [0..<width B] result)"
    if "y \<in> set [0..<height B]" for y result
    by (rule foldE_Inr_on) (rule px [OF _ that])
  have "foldE (\<lambda>y. foldE (\<lambda>x. resize_pixel B ?xr ?yr x y) [0..<width B]) [0..<height B]
          (newImage (width B) (height B)) = Inr ?out"
    by (rule foldE_Inr_on) (rule row)
  then have run: "applyResize B (width B) (height B) = ?out"
    by (simp add: applyResize_def Let_def)
  note L = fold_rows_new [OF copy_write_local [of B] upt_below distinct_upt upt_below distinct_upt,
      where w = "width B" and h = "height B"]
  have "?out = B"
  proof (rule Image_eqI)
    show "wf_image ?out" by (rule L(3))
    show "wf_image B" by (rule assms(1))
    show "width ?out = width B" by (rule L(1))
    show "height ?out = height B" by (rule L(2))
    fix x y c :: nat
    assume "x < width ?out" "y < height ?out" and c: "c < 3"
    then have xy: "x < width B" "y < height B"
      using L(1,2) by simp_all
    have "c = 0 \<or> c = 1 \<or> c = 2" using c by arith
    then show "getPixel ?out x y c = getPixel B x y c"
      using L(4) [OF xy c] xy by (auto simp: px_def chan_def)
  qed
  with run show ?thesis by simp
qed

theorem applyResize_identity_witness:
  "wf_image \<lparr>width = 2, height = 1, imageData = [10, 20, 30, 40, 50, 60]\<rparr> \<and>
   applyResize \<lparr>width = 2, height = 1, imageData = [10, 20, 30, 40, 50, 60]\<rparr> 2 1
     = \<lparr>width = 2, height = 1, imageData = [10, 20, 30, 40, 50, 60]\<rparr>"
  using applyResize_identity [of "\<lparr>width = 2, height = 1, imageData = [10, 20, 30, 40, 50, 60]\<rparr>"]
  by (simp add: wf_image_def channels_def)

section \<open>Unrecognized string parameters\<close>

text \<open>
  C7. The specification wants a call with an unrecognized direction, choice or frame type to fail with
  \<open>InvalidParameter\<close>. The code has no such branch: \<open>applyFlip\<close> treats every direction
  other than \<open>Horizontal\<close> as vertical, \<open>applyDarkAndLight\<close> treats every choice other than
  \<open>dark\<close> as light, and \<open>applyFrame\<close> falls back to the decorated brown and beige frame.
  Evaluated at the directions \<open>Diagonal\<close>, the choice \<open>medium\<close> and the frame type \<open>Neon\<close>:
  the image is flipped vertically, lightened, and framed, and no fault is returned.
\<close>

theorem unrecognized_parameter_defaults:
  "applyFlip \<lparr>width = 1, height = 2, imageData = [10, 20, 30, 20, 40, 60]\<rparr> ''Diagonal''
     = Inr \<lparr>width = 1, height = 2, imageData = [20, 40, 60, 10, 20, 30]\<rparr> \<and>
   applyFlip \<lparr>width = 1, height = 2, imageData = [10, 20, 30, 20, 40, 60]\<rparr> ''Diagonal''
     = applyFlip \<lparr>width = 1, height = 2, imageData = [10, 20, 30, 20, 40, 60]\<rparr> ''Vertical'' \<and>
   applyDarkAndLight \<lparr>width = 1, height = 1, imageData = [10, 20, 200]\<rparr> ''medium''
     = Inr \<lparr>width = 1, height = 1, imageData = [20, 40, 255]\<rparr> \<and>
   applyDarkAndLight \<lparr>width = 1, height = 1, imageData = [10, 20, 200]\<rparr> ''medium''
     = applyDarkAndLight \<lparr>width = 1, height = 1, imageData = [10, 20, 200]\<rparr> ''light'' \<and>
   applyFrame \<lparr>width = 1, height = 1, imageData = [10, 20, 200]\<rparr> ''Neon''
     = Inr (frame_decorated \<lparr>width = 1, height = 1, imageData = [10, 20, 200]\<rparr>)"
proof (intro conjI)
  show "applyFlip \<lparr>width = 1, height = 2, imageData = [10, 20, 30, 20, 40, 60]\<rparr> ''Diagonal''
     = Inr \<lparr>width = 1, height = 2, imageData = [20, 40, 60, 10, 20, 30]\<rparr>"
    by code_simp
  show "applyFlip \<lparr>width = 1, height = 2, imageData = [10, 20, 30, 20, 40, 60]\<rparr> ''Diagonal''
     = applyFlip \<lparr>width = 1, height = 2, imageData = [10, 20, 30, 20, 40, 60]\<rparr> ''Vertical''"
    by (simp add: applyFlip_def)
  show "applyDarkAndLight \<lparr>width = 1, height = 1, imageData = [10, 20, 200]\<rparr> ''medium''
     = Inr \<lparr>width = 1, height = 1, imageData = [20, 40, 255]\<rparr>"
    by code_simp
  show "applyDarkAndLight \<lparr>width = 1, height = 1, imageData = [10, 20, 200]\<rparr> ''medium''
     = applyDarkAndLight \<lparr>width = 1, height = 1, imageData = [10, 20, 200]\<rparr> ''light''"
    by (simp add: applyDarkAndLight_def darklight_value_def)
  show "applyFrame \<lparr>width = 1, height = 1, imageData = [10, 20, 200]\<rparr> ''Neon''
     = Inr (frame_decorated \<lparr>width = 1, height = 1, imageData = [10, 20, 200]\<rparr>)"
    by (simp add: applyFrame_def)
qed

section \<open>History manager\<close>

lemma capacity_history_step: "capacity (fst (history_step op s)) = capacity (fst s)"
  by (cases op; cases s) (simp_all add: pushUndo_def undo_def redo_def clear_def Let_def)

lemma history_step_bound:
  assumes "length (undoStack (fst s)) + length (redoStack (fst s)) \<le> capacity (fst s)"
  shows "length (undoStack (fst (history_step op s))) + length (redoStack (fst (history_step op s)))
           \<le> capacity (fst (history_step op s))"
proof (cases s)
  case (Pair h current)
  show ?thesis
  proof (cases op)
    case (PushUndo img)
    then show ?thesis using assms Pair by (auto simp: pushUndo_def Let_def)
  next
    case Undo
    then show ?thesis using assms Pair by (cases "undoStack h") (auto simp: undo_def)
  next
    case Redo
    then show ?thesis using assms Pair by (cases "redoStack h") (auto simp: redo_def)
  next
    case Clear
    then show ?thesis using assms Pair by (simp add: clear_def)
  qed
qed

lemma history_run_bound:
  "length (undoStack (fst s)) + length (redoStack (fst s)) \<le> capacity (fst s) \<Longrightarrow>
   length (undoStack (fst (fold history_step ops s))) + length (redoStack (fst (fold history_step ops s)))
     \<le> capacity (fst s)"
proof (induction ops arbitrary: s)
  case Nil
  then show ?case by simp
next
  case (Cons op ops)
  from Cons.IH [OF history_step_bound [OF Cons.prems]] show ?case
    by (simp add: capacity_history_step)
qed

lemma pushUndo_undoStack:
  "length (undoStack h) \<le> capacity h \<Longrightarrow>
   undoStack (pushUndo h s) = drop (Suc (length (undoStack h)) - capacity h) (undoStack h @ [s])"
proof (cases "length (undoStack h) < capacity h")
  case True
  then show ?thesis by (simp add: pushUndo_def Let_def)
next
  case False
  assume "length (undoStack h) \<le> capacity h"
  with False have e: "length (undoStack h) = capacity h" by simp
  have "undoStack (pushUndo h s) = tl (undoStack h @ [s])"
    using e by (simp add: pushUndo_def Let_def)
  also have "\<dots> = drop (Suc 0) (undoStack h @ [s])"
    by (simp only: drop_Suc drop_0)
  finally show ?thesis using e by simp
qed

lemma drop_drop_append:
  assumes "d \<le> Suc (length U)"
  shows "drop k (drop d (U @ [s]) @ ss) = drop (k + d) (U @ s # ss)"
proof -
  have "drop d (U @ [s]) @ ss = drop d ((U @ [s]) @ ss)"
  proof (cases "d \<le> length U")
    case True
    then show ?thesis by simp
  next
    case False
    with assms have "d = Suc (length U)" by simp
    then show ?thesis by simp
  qed
  then show ?thesis
    by (simp only: drop_drop append_assoc append_Cons append_Nil)
qed

lemma pushUndo_run:
  "length (undoStack h) \<le> capacity h \<Longrightarrow>
   undoStack (fold (\<lambda>s h. pushUndo h s) ss h) =
     drop (length (undoStack h @ ss) - capacity h) (undoStack h @ ss) \<and>
   capacity (fold (\<lambda>s h. pushUndo h s) ss h) = capacity h"
proof (induction ss arbitrary: h)
  case Nil
  then show ?case by simp
next
  case (Cons s ss)
  let ?h = "pushUndo h s"
  let ?d = "Suc (length (undoStack h)) - capacity h"
  have cap: "capacity ?h = capacity h"
    by (simp add: pushUndo_def Let_def)
  have u: "undoStack ?h = drop ?d (undoStack h @ [s])"
    by (rule pushUndo_undoStack [OF Cons.prems])
  have len: "length (undoStack ?h) \<le> capacity ?h"
    using Cons.prems by (simp add: u cap)
  have d: "?d \<le> Suc (length (undoStack h))" by simp
  have "drop (length (undoStack ?h @ ss) - capacity h) (undoStack ?h @ ss) =
        drop (length (undoStack ?h @ ss) - capacity h + ?d) (undoStack h @ s # ss)"
    unfolding u by (rule drop_drop_append [OF d])
  also have "length (undoStack ?h @ ss) - capacity h + ?d = length (undoStack h @ s # ss) - capacity h"
    using Cons.prems by (simp add: u)
  finally show ?case
    using Cons.IH [OF len] by (simp add: cap)
qed

text \<open>
  C9. With capacity \<open>N\<close> (20 in the main window): whatever operations are run from the empty
  history, the undo stack never holds more than \<open>N\<close> entries; pushing \<open>N + 1\<close> snapshots, an
  oldest one followed by \<open>N\<close> others, leaves exactly those \<open>N\<close> others; and \<open>canUndo\<close> is
  false exactly when the undo stack is empty.
\<close>

theorem history_capacity:
  "length (undoStack (fst (fold history_step ops (newHistory N, img)))) \<le> N \<and>
   undoStack (fold (\<lambda>s h. pushUndo h s) (oldest # rest) (newHistory (length rest))) = rest \<and>
   length (undoStack (fold (\<lambda>s h. pushUndo h s) (oldest # rest) (newHistory (length rest)))) = length rest \<and>
   (\<not> canUndo h) = (undoStack h = []) \<and>
   capacity history0 = 20"
proof (intro conjI)
  have "length (undoStack (fst (fold history_step ops (newHistory N, img)))) +
        length (redoStack (fst (fold history_step ops (newHistory N, img))))
          \<le> capacity (fst (newHistory N, img))"
    by (rule history_run_bound) (simp add: newHistory_def)
  then show "length (undoStack (fst (fold history_step ops (newHistory N, img)))) \<le> N"
    by (simp add: newHistory_def)
  show r: "undoStack (fold (\<lambda>s h. pushUndo h s) (oldest # rest) (newHistory (length rest))) = rest"
    using pushUndo_run [of "newHistory (length rest)" "oldest # rest"]
    by (simp add: newHistory_def)
  show "length (undoStack (fold (\<lambda>s h. pushUndo h s) (oldest # rest) (newHistory (length rest)))) = length rest"
    by (simp only: r)
  show "(\<not> canUndo h) = (undoStack h = [])"
    by (simp add: canUndo_def)
  show "capacity history0 = 20"
    by (simp add: history0_def newHistory_def)
qed

section \<open>Edge detection\<close>

lemma value_write_local:
  "local_update (\<lambda>x y result. set3 result x y (a x y) (b x y) (d x y))
     (\<lambda>x y p c. chan (a x y, b x y, d x y) c)"
  unfolding local_update_def
proof (intro allI impI, elim conjE)
  fix img x y
  assume h: "wf_image img" "x < width img" "y < height img"
  note S = set3_local [OF h, where a = "a x y" and b = "b x y" and d = "d x y"]
  show "width (set3 img x y (a x y) (b x y) (d x y)) = width img \<and>
        height (set3 img x y (a x y) (b x y) (d x y)) = height img \<and>
        wf_image (set3 img x y (a x y) (b x y) (d x y)) \<and>
        (\<forall>x' y' c'. x' < width img \<and> y' < height img \<and> c' < 3 \<longrightarrow>
           getPixel (set3 img x y (a x y) (b x y) (d x y)) x' y' c' =
             (if x' = x \<and> y' = y then chan (a x y, b x y, d x y) c' else getPixel img x' y' c'))"
    using S by simp
qed

lemma chan_same: "chan (v, v, v) c = v"
  by (simp add: chan_def)

lemma gray_write_rows:
  fixes v :: "nat \<Rightarrow> nat \<Rightarrow> byte" and x0 y0 :: nat
  assumes sub: "x1 \<le> w" "y1 \<le> h"
  defines "out \<equiv> fold (\<lambda>y. fold (\<lambda>x result. set3 result x y (v x y) (v x y) (v x y)) [x0..<x1])
                      [y0..<y1] (newImage w h)"
  shows "width out = w" "height out = h" "wf_image out"
    and "\<And>x y c. x < w \<Longrightarrow> y < h \<Longrightarrow> c < 3 \<Longrightarrow>
           getPixel out x y c =
             (if x0 \<le> x \<and> x < x1 \<and> y0 \<le> y \<and> y < y1 then v x y
              else getPixel (newImage w h) x y c)"
proof -
  have xs: "set [x0..<x1] \<subseteq> {..<w}" using sub(1) by auto
  have ys: "set [y0..<y1] \<subseteq> {..<h}" using sub(2) by auto
  note L = fold_rows_new [OF value_write_local [of v v v] xs distinct_upt ys distinct_upt]
  show "width out = w" "height out = h" "wf_image out"
    unfolding out_def by (rule L)+
  fix x y c :: nat
  assume "x < w" "y < h" "c < 3"
  from L(4) [OF this] show "getPixel out x y c =
             (if x0 \<le> x \<and> x < x1 \<and> y0 \<le> y \<and> y < y1 then v x y
              else getPixel (newImage w h) x y c)"
    unfolding out_def by (simp add: chan_same)
qed

lemma edges_gray_pixels:
  shows "width (edges_gray img) = width img" "height (edges_gray img) = height img"
    "wf_image (edges_gray img)"
    and "\<And>x y c. x < width img \<Longrightarrow> y < height img \<Longrightarrow> c < 3 \<Longrightarrow>
           getPixel (edges_gray img) x y c =
             toByte (luma (uint (getPixel img x y 0)) (uint (getPixel img x y 1))
                          (uint (getPixel img x y 2)))"
proof -
  let ?v = "\<lambda>x y. toByte (luma (uint (getPixel img x y 0)) (uint (getPixel img x y 1))
                          (uint (getPixel img x y 2)))"
  have e: "edges_gray img =
           fold (\<lambda>y. fold (\<lambda>x result. set3 result x y (?v x y) (?v x y) (?v x y)) [0..<width img])
             [0..<height img] (newImage (width img) (height img))"
    by (simp add: edges_gray_def Let_def)
  note L = gray_write_rows [OF order_refl order_refl, where ?x0.0 = 0 and w = "width img"
      and ?y0.0 = 0 and h = "height img" and v = ?v]
  show "width (edges_gray img) = width img" "height (edges_gray img) = height img"
    "wf_image (edges_gray img)"
    unfolding e by (rule L)+
  fix x y c :: nat
  assume a: "x < width img" "y < height img" "c < 3"
  show "getPixel (edges_gray img) x y c = ?v x y"
    unfolding e using L(4) [OF a] a by simp
qed

lemma fold_add_sum:
  "fold (\<lambda>k s. s + f k) ks (a::int) = a + sum_list (map f ks)"
  by (induction ks arbitrary: a) simp_all

lemma fold_fold_add_sum:
  "fold (\<lambda>i. fold (\<lambda>j s. s + f i j) js) is (a::int) = a + (\<Sum>i\<leftarrow>is. \<Sum>j\<leftarrow>js. f i j)"
  by (induction "is" arbitrary: a) (simp_all add: fold_add_sum)

lemma upto_m2_2: "[-2..2] = [-2, -1, 0, 1, 2::int]"
  by (simp add: upto.simps)

lemma binomial_weight_values:
  "binomial_weight (- 2) = 1" "binomial_weight (- 1) = 4" "binomial_weight 0 = 6"
  "binomial_weight 1 = 4" "binomial_weight 2 = 1"
  by (simp_all add: binomial_weight_def numeral_eq_Suc)

lemma kernel_binomial:
  "kernel5x5 = map (\<lambda>ky. map (\<lambda>kx. binomial_weight ky * binomial_weight kx) [-2..2]) [-2..2]"
  unfolding upto_m2_2 by (simp add: kernel5x5_def binomial_weight_values)

lemma gauss_sum_spec: "gauss_sum gray x y = gauss_spec gray x y"
  unfolding gauss_sum_def gauss_spec_def fold_fold_add_sum upto_m2_2
  by (simp add: kernel5x5_def binomial_weight_values)

lemma edges_blur_pixels:
  shows "width (edges_blur gray) = width gray" "height (edges_blur gray) = height gray"
    "wf_image (edges_blur gray)"
    and "\<And>x y c. x < width gray \<Longrightarrow> y < height gray \<Longrightarrow> c < 3 \<Longrightarrow>
           getPixel (edges_blur gray) x y c =
             (if 2 \<le> x \<and> x < width gray - 2 \<and> 2 \<le> y \<and> y < height gray - 2
              then toByte (gauss_spec gray x y div 256)
              else getPixel (newImage (width gray) (height gray)) x y c)"
proof -
  let ?v = "\<lambda>x y. toByte (gauss_spec gray x y div 256)"
  have e: "edges_blur gray =
           fold (\<lambda>y. fold (\<lambda>x result. set3 result x y (?v x y) (?v x y) (?v x y)) [2..<width gray - 2])
             [2..<height gray - 2] (newImage (width gray) (height gray))"
    by (simp add: edges_blur_def Let_def gauss_sum_spec kernelSum_def)
  note L = gray_write_rows [OF diff_le_self diff_le_self, where ?x0.0 = 2 and w = "width gray"
      and ?y0.0 = 2 and h = "height gray" and v = ?v]
  show "width (edges_blur gray) = width gray" "height (edges_blur gray) = height gray"
    "wf_image (edges_blur gray)"
    unfolding e by (rule L)+
  fix x y c :: nat
  assume a: "x < width gray" "y < height gray" "c < 3"
  show "getPixel (edges_blur gray) x y c =
             (if 2 \<le> x \<and> x < width gray - 2 \<and> 2 \<le> y \<and> y < height gray - 2
              then ?v x y else getPixel (newImage (width gray) (height gray)) x y c)"
    unfolding e using L(4) [OF a] by simp
qed

lemma upto_m1_1: "[-1..1] = [-1, 0, 1::int]"
  by (simp add: upto.simps)

lemma sobel_sums_explicit:
  assumes "1 \<le> x" "1 \<le> y"
  shows "sobel_sums p x y = (sobel_gx p x y, sobel_gy p x y)"
proof -
  have n: "nat (int x - 1) = x - 1" "nat (int y - 1) = y - 1"
    "nat (int x + 1) = Suc x" "nat (int y + 1) = Suc y"
    using assms by linarith+
  show ?thesis
    unfolding sobel_sums_def upto_m1_1
    by (simp add: n sobelX_def sobelY_def sobel_gx_def sobel_gy_def Let_def)
qed

lemma isqrt_from_spec:
  "r * r \<le> n \<Longrightarrow> isqrt_from n r * isqrt_from n r \<le> n \<and> n < (isqrt_from n r + 1) * (isqrt_from n r + 1)"
proof (induction n r rule: isqrt_from.induct)
  case (1 n r)
  show ?case
  proof (cases "(r + 1) * (r + 1) \<le> n")
    case True
    then have "isqrt_from n r = isqrt_from n (r + 1)"
      by (subst isqrt_from.simps) simp
    with "1.IH" [OF True True] show ?thesis by simp
  next
    case False
    then have "isqrt_from n r = r"
      by (subst isqrt_from.simps) simp
    with False "1.prems" show ?thesis by simp
  qed
qed

lemma isqrt_spec: "isqrt n * isqrt n \<le> n \<and> n < (isqrt n + 1) * (isqrt n + 1)"
  unfolding isqrt_def by (rule isqrt_from_spec) simp

lemma isqrt_gt_50: "50 < isqrt n \<longleftrightarrow> 2601 \<le> n"
proof
  assume "50 < isqrt n"
  then have b: "51 \<le> isqrt n" by linarith
  have "51 * 51 \<le> isqrt n * isqrt n" by (rule mult_le_mono [OF b b])
  with isqrt_spec [of n] show "2601 \<le> n" by simp
next
  assume a: "2601 \<le> n"
  show "50 < isqrt n"
  proof (rule ccontr)
    assume "\<not> 50 < isqrt n"
    then have b: "isqrt n + 1 \<le> 51" by linarith
    have "(isqrt n + 1) * (isqrt n + 1) \<le> 51 * 51" by (rule mult_le_mono [OF b b])
    with isqrt_spec [of n] a show False by simp
  qed
qed

lemma edge_value_threshold:
  "edge_value gx gy = (if 2601 \<le> gx * gx + gy * gy then 0 else 255)"
proof -
  let ?n = "nat (gx * gx + gy * gy)"
  have "(50 < min 255 (max 0 (int (isqrt ?n)))) = (50 < isqrt ?n)"
    by auto
  also have "\<dots> = (2601 \<le> ?n)" by (rule isqrt_gt_50)
  also have "\<dots> = (2601 \<le> gx * gx + gy * gy)" by auto
  finally show ?thesis
    by (simp add: edge_value_def Let_def)
qed

lemma edges_sobel_pixels:
  shows "width (edges_sobel p) = width p" "height (edges_sobel p) = height p"
    and "\<And>x y c. x < width p \<Longrightarrow> y < height p \<Longrightarrow> c < 3 \<Longrightarrow>
           getPixel (edges_sobel p) x y c =
             (if 1 \<le> x \<and> x < width p - 1 \<and> 1 \<le> y \<and> y < height p - 1
              then toByte (edge_value (sobel_gx p x y) (sobel_gy p x y))
              else getPixel (newImage (width p) (height p)) x y c)"
proof -
  let ?v = "\<lambda>x y. toByte (edge_value (fst (sobel_sums p x y)) (snd (sobel_sums p x y)))"
  have e: "edges_sobel p =
           fold (\<lambda>y. fold (\<lambda>x result. set3 result x y (?v x y) (?v x y) (?v x y)) [1..<width p - 1])
             [1..<height p - 1] (newImage (width p) (height p))"
    by (simp add: edges_sobel_def Let_def case_prod_beta)
  note L = gray_write_rows [OF diff_le_self diff_le_self, where ?x0.0 = 1 and w = "width p"
      and ?y0.0 = 1 and h = "height p" and v = ?v]
  show "width (edges_sobel p) = width p" "height (edges_sobel p) = height p"
    unfolding e by (rule L)+
  fix x y c :: nat
  assume a: "x < width p" "y < height p" "c < 3"
  have "getPixel (edges_sobel p) x y c =
             (if 1 \<le> x \<and> x < width p - 1 \<and> 1 \<le> y \<and> y < height p - 1
              then ?v x y else getPixel (newImage (width p) (height p)) x y c)"
    unfolding e using L(4) [OF a] by simp
  then show "getPixel (edges_sobel p) x y c =
             (if 1 \<le> x \<and> x < width p - 1 \<and> 1 \<le> y \<and> y < height p - 1
              then toByte (edge_value (sobel_gx p x y) (sobel_gy p x y))
              else getPixel (newImage (width p) (height p)) x y c)"
    by (simp add: sobel_sums_explicit)
qed

lemma kernel_sum: "sum_list (map sum_list kernel5x5) = kernelSum"
  by (simp add: kernel5x5_def kernelSum_def)

lemma gauss_spec_rows:
  assumes "\<And>a b. a < w \<Longrightarrow> b < h \<Longrightarrow> getPixel gray a b 0 = toByte (g b)"
    and "\<And>b. b < h \<Longrightarrow> 0 \<le> g b \<and> g b < 256"
    and "2 \<le> x" "x + 2 < w" "2 \<le> y" "y + 2 < h"
  shows "gauss_spec gray x y =
           16 * (g (y - 2) + 4 * g (y - 1) + 6 * g y + 4 * g (y + 1) + g (y + 2))"
proof -
  have n: "nat (int x + - 2) = x - 2" "nat (int x + - 1) = x - 1" "nat (int x + 0) = x"
    "nat (int x + 1) = x + 1" "nat (int x + 2) = x + 2"
    "nat (int y + - 2) = y - 2" "nat (int y + - 1) = y - 1" "nat (int y + 0) = y"
    "nat (int y + 1) = y + 1" "nat (int y + 2) = y + 2"
    using assms(3,5) by linarith+
  have p: "uint (getPixel gray a b 0) = g b" if "a < w" "b < h" for a b
    using assms(1) [OF that] assms(2) [OF that(2)] by (simp add: uint_toByte)
  have xs: "x - 2 < w" "x - 1 < w" "x < w" "x + 1 < w" "x + 2 < w"
    using assms(4) by linarith+
  have ys: "y - 2 < h" "y - 1 < h" "y < h" "y + 1 < h" "y + 2 < h"
    using assms(6) by linarith+
  show ?thesis
    unfolding gauss_spec_def upto_m2_2 list.map sum_list.Cons sum_list.Nil n binomial_weight_values
    by (simp only: p xs ys) simp
qed

lemma luma_black: "luma 0 0 0 = 0"
  by code_simp

lemma luma_white: "luma 255 255 255 = 255"
  by code_simp

text \<open>
  C6, the claim as it is worded, does not hold: the blur pass leaves more than the one-pixel
  border unprocessed. In the all-white image of 5 by 5 pixels every grey sample is 255, and the
  blurred pixel \<open>(2, 2)\<close> is 255; the pixel \<open>(1, 1)\<close> is not on the one-pixel border, yet
  the blur pass does not write it, and it keeps the 0 the constructor gave it.
\<close>

theorem edges_blur_skips_second_ring:
  "(1 :: nat) \<le> 1 \<and> (1 :: nat) < width \<lparr>width = 5, height = 5, imageData = replicate 75 255\<rparr> - 1 \<and>
   (1 :: nat) < height \<lparr>width = 5, height = 5, imageData = replicate 75 255\<rparr> - 1 \<and>
   getPixel (edges_gray \<lparr>width = 5, height = 5, imageData = replicate 75 255\<rparr>) 1 1 0 = 255 \<and>
   getPixel (edges_blur (edges_gray \<lparr>width = 5, height = 5, imageData = replicate 75 255\<rparr>)) 2 2 0
     = 255 \<and>
   getPixel (edges_blur (edges_gray \<lparr>width = 5, height = 5, imageData = replicate 75 255\<rparr>)) 1 1 0
     = getPixel (newImage 5 5) 1 1 0 \<and>
   getPixel (newImage 5 5) 1 1 0 = 0"
proof -
  let ?I = "\<lparr>width = 5, height = 5, imageData = replicate 75 255\<rparr>"
  let ?G = "edges_gray ?I"
  note l = luma_white
  have i: "getPixel ?I a b c = 255" if "a < 5" "b < 5" "c < 3" for a b c :: nat
  proof -
    have "b * 15 + a * 3 + c < 75" using that by linarith
    then have "(b * 5 + a) * 3 + c < 75" by (simp add: distrib_right)
    then show ?thesis by (simp add: getPixel_def idx_def channels_def)
  qed
  have g: "getPixel ?G a b 0 = toByte 255" if "a < 5" "b < 5" for a b :: nat
    using edges_gray_pixels(4) [of a ?I b 0] that by (simp add: i l)
  have d: "width ?G = 5" "height ?G = 5"
    by (simp_all add: edges_gray_pixels(1,2))
  have s: "gauss_spec ?G 2 2 = 16 * (255 + 4 * 255 + 6 * 255 + 4 * 255 + 255)"
    by (rule gauss_spec_rows [where w = 5 and h = 5 and g = "\<lambda>b. 255"]) (simp_all add: g)
  have b22: "getPixel (edges_blur ?G) 2 2 0 = 255"
    using edges_blur_pixels(4) [of 2 ?G 2 0] by (simp add: d s toByte_def)
  have b11: "getPixel (edges_blur ?G) 1 1 0 = getPixel (newImage 5 5) 1 1 0"
    using edges_blur_pixels(4) [of 1 ?G 1 0] by (simp add: d)
  have z: "getPixel (newImage 5 5) 1 1 0 = 0"
    by (simp add: getPixel_def newImage_def idx_def channels_def)
  have g11: "getPixel ?G 1 1 0 = 255"
    using g [of 1 1] by (simp add: toByte_def)
  from g11 b22 b11 z show ?thesis by simp
qed

text \<open>
  C6, amended. Edge detection, for every buffer and every pixel \<open>(x, y)\<close> inside it. The grey
  image holds the truncated luma \<open>0.299 R + 0.587 G + 0.114 B\<close>, computed in
  \<^verbatim>\<open>double\<close>. The kernel of the Gaussian blur is the table of the products of the
  binomial weights 1, 4, 6, 4, 1 and sums to 256. The blurred image holds the sum of the 5 by
  5 neighbourhood under these weights, divided by 256, at the pixels at least two away from
  every edge, and is left as constructed elsewhere: the blur pass leaves the two outermost
  rings unprocessed, not only the one-pixel border. The result holds, at the pixels at least
  one away from every edge, 0 (black) where the magnitude \<open>sqrt (gx\<^sup>2 + gy\<^sup>2)\<close> of the
  Sobel gradients of the blurred image, clamped to \<open>[0, 255]\<close>, exceeds 50, and 255 (white)
  otherwise; the outermost ring is left as constructed.
\<close>

theorem applyEdges_pipeline:
  assumes "x < width img" "y < height img" "c < 3"
  shows "width (applyEdges img) = width img \<and> height (applyEdges img) = height img \<and>
         getPixel (edges_gray img) x y c =
           toByte (luma (uint (getPixel img x y 0)) (uint (getPixel img x y 1)) (uint (getPixel img x y 2))) \<and>
         luma r g b =
           trunc (dadd (dadd (dmul (rd (299 / 1000)) (itod r)) (dmul (rd (587 / 1000)) (itod g)))
                       (dmul (rd (114 / 1000)) (itod b))) \<and>
         kernel5x5 = map (\<lambda>ky. map (\<lambda>kx. binomial_weight ky * binomial_weight kx) [-2..2]) [-2..2] \<and>
         map binomial_weight [-2..2] = [1, 4, 6, 4, 1] \<and>
         sum_list (map sum_list kernel5x5) = kernelSum \<and> kernelSum = 256 \<and>
         getPixel (edges_blur (edges_gray img)) x y c =
           (if 2 \<le> x \<and> x < width img - 2 \<and> 2 \<le> y \<and> y < height img - 2
            then toByte (gauss_spec (edges_gray img) x y div 256)
            else getPixel (newImage (width img) (height img)) x y c) \<and>
         getPixel (applyEdges img) x y c =
           (if 1 \<le> x \<and> x < width img - 1 \<and> 1 \<le> y \<and> y < height img - 1
            then toByte (edge_value (sobel_gx (edges_blur (edges_gray img)) x y)
                                    (sobel_gy (edges_blur (edges_gray img)) x y))
            else getPixel (newImage (width img) (height img)) x y c) \<and>
         edge_value gx gy =
           (if 50 < min 255 (max 0 (int (isqrt (nat (gx * gx + gy * gy))))) then 0 else 255) \<and>
         isqrt n * isqrt n \<le> n \<and> n < (isqrt n + 1) * (isqrt n + 1)"
proof -
  let ?G = "edges_gray img"
  let ?B = "edges_blur ?G"
  note G = edges_gray_pixels [where img = img]
  note B = edges_blur_pixels [where gray = ?G]
  note S = edges_sobel_pixels [where p = ?B]
  have dims: "width ?B = width img" "height ?B = height img"
    using B(1,2) G(1,2) by simp_all
  have xyG: "x < width ?G" "y < height ?G" using assms G(1,2) by simp_all
  have xyB: "x < width ?B" "y < height ?B" using assms dims by simp_all
  have 1: "width (applyEdges img) = width img" "height (applyEdges img) = height img"
    using S(1,2) dims by (simp_all add: applyEdges_def)
  have 2: "getPixel ?G x y c =
           toByte (luma (uint (getPixel img x y 0)) (uint (getPixel img x y 1)) (uint (getPixel img x y 2)))"
    by (rule G(4) [OF assms])
  have 3: "getPixel ?B x y c =
           (if 2 \<le> x \<and> x < width img - 2 \<and> 2 \<le> y \<and> y < height img - 2
            then toByte (gauss_spec ?G x y div 256)
            else getPixel (newImage (width img) (height img)) x y c)"
    using B(4) [OF xyG assms(3)] G(1,2) by simp
  have 4: "getPixel (applyEdges img) x y c =
           (if 1 \<le> x \<and> x < width img - 1 \<and> 1 \<le> y \<and> y < height img - 1
            then toByte (edge_value (sobel_gx ?B x y) (sobel_gy ?B x y))
            else getPixel (newImage (width img) (height img)) x y c)"
    using S(3) [OF xyB assms(3)] dims by (simp add: applyEdges_def)
  have 5: "edge_value gx gy =
           (if 50 < min 255 (max 0 (int (isqrt (nat (gx * gx + gy * gy))))) then 0 else 255)"
    by (simp add: edge_value_def Let_def)
  have 6: "map binomial_weight [-2..2] = [1, 4, 6, 4, 1]"
    unfolding upto_m2_2 by (simp add: binomial_weight_values)
  have 7: "luma r g b =
           trunc (dadd (dadd (dmul (rd (299 / 1000)) (itod r)) (dmul (rd (587 / 1000)) (itod g)))
                       (dmul (rd (114 / 1000)) (itod b)))"
    by (rule luma_def)
  have 8: "kernelSum = 256" by (rule kernelSum_def)
  from 1 2 7 kernel_binomial 6 kernel_sum 8 3 4 5 isqrt_spec [of n]
  show ?thesis by blast
qed

text \<open>
  An image of 7 by 9 pixels, black in its rows 0 and 1 and white below. The blurred rows 2, 3
  and 4 hold 175, 239 and 255. At \<open>(3, 3)\<close> the vertical gradient is \<open>4 * (255 - 175) = 320\<close>
  and the result is black; at \<open>(3, 5)\<close> both gradients are 0 and the result is white. Both
  pixels have their whole Sobel window among the blurred pixels.
\<close>

theorem applyEdges_pipeline_witness:
  "getPixel (edges_gray \<lparr>width = 7, height = 9, imageData = replicate 42 0 @ replicate 147 255\<rparr>) 3 1 0 = 0 \<and>
   getPixel (edges_gray \<lparr>width = 7, height = 9, imageData = replicate 42 0 @ replicate 147 255\<rparr>) 3 2 0 = 255 \<and>
   getPixel (edges_blur (edges_gray
      \<lparr>width = 7, height = 9, imageData = replicate 42 0 @ replicate 147 255\<rparr>)) 3 2 0 = 175 \<and>
   getPixel (edges_blur (edges_gray
      \<lparr>width = 7, height = 9, imageData = replicate 42 0 @ replicate 147 255\<rparr>)) 3 3 0 = 239 \<and>
   getPixel (edges_blur (edges_gray
      \<lparr>width = 7, height = 9, imageData = replicate 42 0 @ replicate 147 255\<rparr>)) 3 4 0 = 255 \<and>
   getPixel (edges_blur (edges_gray
      \<lparr>width = 7, height = 9, imageData = replicate 42 0 @ replicate 147 255\<rparr>)) 1 1 0 = 0 \<and>
   getPixel (applyEdges \<lparr>width = 7, height = 9, imageData = replicate 42 0 @ replicate 147 255\<rparr>) 3 3 0 = 0 \<and>
   getPixel (applyEdges \<lparr>width = 7, height = 9, imageData = replicate 42 0 @ replicate 147 255\<rparr>) 3 5 0 = 255 \<and>
   getPixel (applyEdges \<lparr>width = 7, height = 9, imageData = replicate 42 0 @ replicate 147 255\<rparr>) 0 0 0 = 0 \<and>
   width (applyEdges \<lparr>width = 7, height = 9, imageData = replicate 42 0 @ replicate 147 255\<rparr>) = 7 \<and>
   height (applyEdges \<lparr>width = 7, height = 9, imageData = replicate 42 0 @ replicate 147 255\<rparr>) = 9"
proof -
  let ?I = "\<lparr>width = 7, height = 9, imageData = replicate 42 0 @ replicate 147 255\<rparr>"
  let ?G = "edges_gray ?I"
  let ?B = "edges_blur ?G"
  define g :: "nat \<Rightarrow> int" where "g b = (if b < 2 then 0 else 255)" for b
  note T = applyEdges_pipeline [where img = ?I and c = 0]
  note l = luma_black luma_white
  have i: "getPixel ?I a b c = toByte (g b)" if "a < 7" "b < 9" "c < 3" for a b c :: nat
  proof (cases "b < 2")
    case True
    then have "b * 21 + a * 3 + c < 42" using that by linarith
    then have "(b * 7 + a) * 3 + c < 42" by (simp add: distrib_right)
    then show ?thesis
      using True by (simp add: getPixel_def idx_def channels_def nth_append g_def toByte_def)
  next
    case False
    then have "42 \<le> b * 21 + a * 3 + c" "b * 21 + a * 3 + c - 42 < 147" using that by linarith+
    then have "42 \<le> (b * 7 + a) * 3 + c" "(b * 7 + a) * 3 + c - 42 < 147"
      by (simp_all add: distrib_right)
    then show ?thesis
      using False by (simp add: getPixel_def idx_def channels_def nth_append g_def toByte_def)
  qed
  have gb: "0 \<le> g b \<and> g b < 256" for b by (simp add: g_def)
  have ug: "uint (toByte (g b)) = g b" for b
    using gb [of b] by (simp add: uint_toByte)
  have lg: "luma (g b) (g b) (g b) = g b" for b
    by (simp add: g_def l)
  have G: "getPixel ?G a b 0 = toByte (g b)" if "a < 7" "b < 9" for a b :: nat
  proof -
    have "getPixel ?G a b 0 =
            toByte (luma (uint (getPixel ?I a b 0)) (uint (getPixel ?I a b 1)) (uint (getPixel ?I a b 2)))"
      using T [where x = a and y = b] that by simp
    then show ?thesis
      using that by (simp add: i ug lg)
  qed
  have sx: "gauss_spec ?G x y =
           16 * (g (y - 2) + 4 * g (y - 1) + 6 * g y + 4 * g (y + 1) + g (y + 2))"
    if "2 \<le> x" "x + 2 < 7" "2 \<le> y" "y + 2 < 9" for x y
    by (rule gauss_spec_rows [where w = 7 and h = 9 and g = g, OF G gb that])
  have B: "getPixel ?B x y 0 =
           toByte (16 * (g (y - 2) + 4 * g (y - 1) + 6 * g y + 4 * g (y + 1) + g (y + 2)) div 256)"
    if "2 \<le> x" "x + 2 < 7" "2 \<le> y" "y + 2 < 9" for x y
    using T [where x = x and y = y] that by (simp add: sx)
  have B2: "getPixel ?B x 2 0 = 175" if "2 \<le> x" "x + 2 < 7" for x
    using B [of x 2] that by (simp add: g_def toByte_def)
  have B3: "getPixel ?B x 3 0 = 239" if "2 \<le> x" "x + 2 < 7" for x
    using B [of x 3] that by (simp add: g_def toByte_def)
  have B4: "getPixel ?B x 4 0 = 255" if "2 \<le> x" "x + 2 < 7" for x
    using B [of x 4] that by (simp add: g_def toByte_def)
  have B5: "getPixel ?B x 5 0 = 255" if "2 \<le> x" "x + 2 < 7" for x
    using B [of x 5] that by (simp add: g_def toByte_def)
  have B6: "getPixel ?B x 6 0 = 255" if "2 \<le> x" "x + 2 < 7" for x
    using B [of x 6] that by (simp add: g_def toByte_def)
  have z: "getPixel (newImage 7 9) a b 0 = 0" if "a < 7" "b < 9" for a b :: nat
  proof -
    have "b * 21 + a * 3 < 189" using that by linarith
    then have "(b * 7 + a) * 3 < 189" by (simp add: distrib_right)
    then show ?thesis
      by (simp add: getPixel_def newImage_def idx_def channels_def)
  qed
  have x33: "sobel_gx ?B 3 3 = 0" "sobel_gy ?B 3 3 = 320"
    by (simp_all add: sobel_gx_def sobel_gy_def B2 B3 B4)
  have x35: "sobel_gx ?B 3 5 = 0" "sobel_gy ?B 3 5 = 0"
    by (simp_all add: sobel_gx_def sobel_gy_def B4 B5 B6)
  have e: "edge_value 0 320 = 0" "edge_value 0 0 = 255"
    by (simp_all add: edge_value_threshold)
  have r33: "getPixel (applyEdges ?I) 3 3 0 = 0"
    using T [where x = 3 and y = 3] by (simp add: x33 e toByte_def)
  have r35: "getPixel (applyEdges ?I) 3 5 0 = 255"
    using T [where x = 3 and y = 5] by (simp add: x35 e toByte_def)
  have r00: "getPixel (applyEdges ?I) 0 0 0 = 0"
    using T [where x = 0 and y = 0] by (simp add: z)
  have b11: "getPixel ?B 1 1 0 = 0"
    using T [where x = 1 and y = 1] by (simp add: z)
  have d: "width (applyEdges ?I) = 7" "height (applyEdges ?I) = 9"
    using T [where x = 0 and y = 0] by simp_all
  have g31: "getPixel ?G 3 1 0 = 0" "getPixel ?G 3 2 0 = 255"
    using G [of 3 1] G [of 3 2] by (simp_all add: g_def toByte_def)
  from g31 B2 [of 3] B3 [of 3] B4 [of 3] b11 r33 r35 r00 d show ?thesis
    by simp
qed

end
